theory Spec2Isabelle
  imports Complex_Main "HOL-Library.Sublist"
begin

section \<open>Image URL normalisation (\<open>cleanImageUrl\<close>)\<close>

text \<open>
  The helper at the end of \<^verbatim>\<open>src/lib/ProxyLegacy.ts\<close>:
  \<^verbatim>\<open>
  const cleanImageUrl = (url: string, origin: string): string => {
    if (url.startsWith("//")) return `https:${url}`;
    if (url.startsWith("/")) return `${origin}${url}`;
    if (url.startsWith("http://")) return url.replace(/^http:\/\//, "https://");
    if (url.startsWith("https://")) return url;
    return `https://${url}`;
  };
  \<close>
  A JavaScript string is modelled as a \<^typ>\<open>string\<close>; \<open>startsWith\<close> is
  \<^const>\<open>prefix\<close>. The anchored \<open>replace\<close> runs only where the URL starts with
  \<open>http://\<close>, so it swaps exactly the first seven characters.
\<close>

definition startsWith :: "string \<Rightarrow> string \<Rightarrow> bool" where
  "startsWith s p = prefix p s"

definition cleanImageUrl :: "string \<Rightarrow> string \<Rightarrow> string" where
  "cleanImageUrl url origin =
     (if startsWith url ''//'' then ''https:'' @ url
      else if startsWith url ''/'' then origin @ url
      else if startsWith url ''http://'' then ''https://'' @ drop 7 url
      else if startsWith url ''https://'' then url
      else ''https://'' @ url)"

subsection \<open>Properties of \<open>cleanImageUrl\<close>\<close>

lemma startsWith_append: "startsWith (p @ s) p"
  by (simp add: startsWith_def)

lemma startsWith_trans: "startsWith s p \<Longrightarrow> startsWith p q \<Longrightarrow> startsWith s q"
  unfolding startsWith_def by (rule prefix_order.trans)

lemma startsWith_extend: "startsWith s p \<Longrightarrow> startsWith (s @ t) p"
  unfolding startsWith_def by (rule prefix_prefix)

lemma startsWith_https_shape:
  "startsWith s ''https://'' \<longleftrightarrow> (\<exists>r. s = ''https://'' @ r)"
  unfolding startsWith_def prefix_def by blast

lemma cleanImageUrl_https:
  assumes "startsWith origin ''https://''"
  shows "startsWith (cleanImageUrl url origin) ''https://''"
proof -
  have a: "startsWith (''https:'' @ url) ''https://''" if "startsWith url ''//''"
    using that unfolding startsWith_def prefix_def by auto
  have b: "startsWith (origin @ url) ''https://''"
    using assms by (rule startsWith_extend)
  have c: "startsWith (''https://'' @ t) ''https://''" for t
    by (rule startsWith_append)
  show ?thesis
    unfolding cleanImageUrl_def using a b c by simp
qed

lemma cleanImageUrl_fixed:
  assumes "startsWith s ''https://''"
  shows "cleanImageUrl s origin = s"
proof -
  obtain r where s: "s = ''https://'' @ r"
    using assms startsWith_https_shape by blast
  have "\<not> startsWith s ''//''" "\<not> startsWith s ''/''" "\<not> startsWith s ''http://''"
    unfolding s startsWith_def by simp_all
  with assms show ?thesis
    by (simp add: cleanImageUrl_def)
qed

text \<open>
  Claim C9. For every URL and every origin that begins with \<open>https://\<close>, the result of
  \<open>cleanImageUrl\<close> begins with \<open>https://\<close>, and cleaning the result again (with the same
  origin) changes nothing.
\<close>

theorem cleanImageUrl_https_idempotent:
  assumes "startsWith origin ''https://''"
  shows "startsWith (cleanImageUrl url origin) ''https://'' \<and>
         cleanImageUrl (cleanImageUrl url origin) origin = cleanImageUrl url origin"
  using assms cleanImageUrl_https cleanImageUrl_fixed by blast

theorem cleanImageUrl_https_idempotent_witness:
  "startsWith ''https://shop.example'' ''https://'' \<and>
   cleanImageUrl ''/img/a.png'' ''https://shop.example'' = ''https://shop.example/img/a.png'' \<and>
   startsWith (cleanImageUrl ''/img/a.png'' ''https://shop.example'') ''https://'' \<and>
   cleanImageUrl (cleanImageUrl ''/img/a.png'' ''https://shop.example'') ''https://shop.example''
     = cleanImageUrl ''/img/a.png'' ''https://shop.example''"
proof -
  have h: "startsWith ''https://shop.example'' ''https://''"
    by (simp add: startsWith_def)
  have v: "cleanImageUrl ''/img/a.png'' ''https://shop.example'' = ''https://shop.example/img/a.png''"
    by (simp add: cleanImageUrl_def startsWith_def)
  show ?thesis
    using h v cleanImageUrl_https_idempotent [OF h, of "''/img/a.png''"] by simp
qed


section \<open>Request headers of one attempt\<close>

text \<open>
  A header object is a JavaScript object with string values, modelled as a map. The
  object spread \<^verbatim>\<open>{...a, ...b}\<close> keeps every key of \<open>a\<close> and \<open>b\<close> and takes the
  value of \<open>b\<close> where both have the key: \<^term>\<open>a ++ b\<close>. Spreading \<open>undefined\<close>
  adds nothing.

  The Header Identity Generator (\<^verbatim>\<open>HeaderGenerator.getHeaders()\<close>, a library) is not
  part of the repository: its output is a parameter \<open>gen\<close> of every definition below.

  An optional field of the options object is \<open>Absent\<close> (no such key), \<open>Undefined\<close>
  (the key is there and holds \<open>undefined\<close>) or \<open>Given v\<close>; the legacy scheduler tests
  \<^verbatim>\<open>"headers" in options\<close>, which tells the first two apart.
\<close>

type_synonym headers = "string \<rightharpoonup> string"

datatype 'a field = Absent | Undefined | Given 'a

fun spread :: "headers field \<Rightarrow> headers" where
  "spread (Given h) = h"
| "spread _ = Map.empty"

text \<open>
  \<^verbatim>\<open>src/lib/ProxyLegacy.ts\<close> (and the same lines of the no-stealth variant):
  \<^verbatim>\<open>
  headers: "headers" in options
    ? { ...this.headerGenerator.getHeaders(), ...options.headers }
    : undefined,
  \<close>
  \<open>None\<close> is \<open>undefined\<close>: the request is sent without a header object.
\<close>

fun legacy_request_headers :: "headers \<Rightarrow> headers field \<Rightarrow> headers option" where
  "legacy_request_headers gen Absent = None"
| "legacy_request_headers gen f = Some (gen ++ spread f)"

text \<open>
  \<^verbatim>\<open>src/lib/ProxyAxios.ts\<close>:
  \<^verbatim>\<open>
  const userAgentHeaders = this.headerGenerator.getHeaders();
  const headers: Record<string, string> = {
    ...userAgentHeaders,
    ...options.headers,
    "User-Agent": userAgentHeaders["user-agent"] || "Mozilla/5.0",
  };
  if (options.decompress) {
    headers["Accept-Encoding"] = "gzip, deflate, br";
  } else {
    headers["Accept-Encoding"] = "identity";
  }
  \<close>
  \<open>x || d\<close> on a string or \<open>undefined\<close> takes \<open>d\<close> when \<open>x\<close> is \<open>undefined\<close> or empty.
  \<open>options.decompress\<close> is an optional boolean, truthy only when it is \<open>true\<close>.
\<close>

definition user_agent_or_default :: "headers \<Rightarrow> string" where
  "user_agent_or_default gen =
     (case gen ''user-agent'' of
        None \<Rightarrow> ''Mozilla/5.0''
      | Some ua \<Rightarrow> if ua = [] then ''Mozilla/5.0'' else ua)"

definition accept_encoding :: "bool option \<Rightarrow> string" where
  "accept_encoding decompress =
     (if decompress = Some True then ''gzip, deflate, br'' else ''identity'')"

definition axios_request_headers :: "headers \<Rightarrow> headers field \<Rightarrow> bool option \<Rightarrow> headers" where
  "axios_request_headers gen hs decompress =
     (gen ++ spread hs)
       (''User-Agent'' \<mapsto> user_agent_or_default gen,
        ''Accept-Encoding'' \<mapsto> accept_encoding decompress)"

text \<open>
  The claim's reading of "merged, the caller wins": the headers sent are exactly the
  generator's output overridden by the caller's headers.
\<close>

definition caller_wins_merge :: "headers \<Rightarrow> headers \<Rightarrow> headers \<Rightarrow> bool" where
  "caller_wins_merge gen caller sent \<longleftrightarrow> sent = gen ++ caller"

subsection \<open>Properties of the request headers\<close>

lemma map_add_lookup:
  "(gen ++ caller) k = (case caller k of Some v \<Rightarrow> Some v | None \<Rightarrow> gen k)"
  by (simp add: map_add_def)

text \<open>
  Claim C6, as stated, fails on the axios scheduler: with the generator's output
  \<open>{user-agent: G}\<close> and the caller's headers \<open>{User-Agent: C}\<close> the headers sent are not
  the merge of the two, and the \<open>User-Agent\<close> sent is the generator's, not the caller's.
\<close>

theorem axios_headers_not_caller_wins_counterexample:
  "\<not> caller_wins_merge [''user-agent'' \<mapsto> ''G''] [''User-Agent'' \<mapsto> ''C'']
       (axios_request_headers [''user-agent'' \<mapsto> ''G''] (Given [''User-Agent'' \<mapsto> ''C'']) None) \<and>
   axios_request_headers [''user-agent'' \<mapsto> ''G''] (Given [''User-Agent'' \<mapsto> ''C'']) None
       ''User-Agent'' = Some ''G''"
proof -
  let ?sent = "axios_request_headers [''user-agent'' \<mapsto> ''G''] (Given [''User-Agent'' \<mapsto> ''C'']) None"
  have ua: "?sent ''User-Agent'' = Some ''G''"
    by (simp add: axios_request_headers_def user_agent_or_default_def)
  have m: "([''user-agent'' \<mapsto> ''G''] ++ [''User-Agent'' \<mapsto> ''C'']) ''User-Agent'' = Some ''C''"
    by simp
  have "?sent \<noteq> [''user-agent'' \<mapsto> ''G''] ++ [''User-Agent'' \<mapsto> ''C'']"
  proof
    assume "?sent = [''user-agent'' \<mapsto> ''G''] ++ [''User-Agent'' \<mapsto> ''C'']"
    then have "?sent ''User-Agent'' = Some ''C''"
      using m by simp
    with ua show False by simp
  qed
  with ua show ?thesis
    unfolding caller_wins_merge_def by (intro conjI)
qed

text \<open>
  Claim C6, amended. In the legacy scheduler a request carries headers exactly when the
  options have a \<open>headers\<close> key, and then every header sent is the caller's value where the
  caller gave one and the generator's otherwise. In the axios scheduler the same holds for
  every header name but two: \<open>User-Agent\<close> is always the generator's \<open>user-agent\<close> value
  (or \<open>Mozilla/5.0\<close>), and \<open>Accept-Encoding\<close> is always set from \<open>options.decompress\<close>.
\<close>

theorem request_headers_merge:
  "(legacy_request_headers gen hs = None \<longleftrightarrow> hs = Absent) \<and>
   (\<forall>sent. legacy_request_headers gen hs = Some sent \<longrightarrow>
      caller_wins_merge gen (spread hs) sent \<and>
      (\<forall>k. sent k = (case spread hs k of Some v \<Rightarrow> Some v | None \<Rightarrow> gen k))) \<and>
   (\<forall>k. axios_request_headers gen hs decompress k =
      (if k = ''Accept-Encoding'' then Some (accept_encoding decompress)
       else if k = ''User-Agent'' then Some (user_agent_or_default gen)
       else case spread hs k of Some v \<Rightarrow> Some v | None \<Rightarrow> gen k))"
proof (intro conjI allI impI)
  show "legacy_request_headers gen hs = None \<longleftrightarrow> hs = Absent"
    by (cases hs) simp_all
next
  fix sent assume "legacy_request_headers gen hs = Some sent"
  then have s: "sent = gen ++ spread hs"
    by (cases hs) simp_all
  then show "caller_wins_merge gen (spread hs) sent"
    by (simp add: caller_wins_merge_def)
  fix k show "sent k = (case spread hs k of Some v \<Rightarrow> Some v | None \<Rightarrow> gen k)"
    unfolding s by (rule map_add_lookup)
next
  fix k
  show "axios_request_headers gen hs decompress k =
      (if k = ''Accept-Encoding'' then Some (accept_encoding decompress)
       else if k = ''User-Agent'' then Some (user_agent_or_default gen)
       else case spread hs k of Some v \<Rightarrow> Some v | None \<Rightarrow> gen k)"
    by (simp add: axios_request_headers_def map_add_lookup)
qed

theorem request_headers_merge_witness:
  "legacy_request_headers [''accept'' \<mapsto> ''*/*'', ''user-agent'' \<mapsto> ''G'']
       (Given [''accept'' \<mapsto> ''text/html'']) =
     Some ([''accept'' \<mapsto> ''*/*'', ''user-agent'' \<mapsto> ''G''] ++ [''accept'' \<mapsto> ''text/html'']) \<and>
   caller_wins_merge [''accept'' \<mapsto> ''*/*'', ''user-agent'' \<mapsto> ''G''] [''accept'' \<mapsto> ''text/html'']
     ([''accept'' \<mapsto> ''*/*'', ''user-agent'' \<mapsto> ''G''] ++ [''accept'' \<mapsto> ''text/html'']) \<and>
   ([''accept'' \<mapsto> ''*/*'', ''user-agent'' \<mapsto> ''G''] ++ [''accept'' \<mapsto> ''text/html'']) ''accept''
     = Some ''text/html''"
proof -
  let ?gen = "[''accept'' \<mapsto> ''*/*'', ''user-agent'' \<mapsto> ''G'']"
  let ?hs = "Given [''accept'' \<mapsto> ''text/html''] :: headers field"
  have e: "legacy_request_headers ?gen ?hs = Some (?gen ++ [''accept'' \<mapsto> ''text/html''])"
    by simp
  have c: "caller_wins_merge ?gen (spread ?hs) (?gen ++ [''accept'' \<mapsto> ''text/html''])"
    using request_headers_merge [of ?gen ?hs None] e by (elim conjE allE [where x = "?gen ++ [''accept'' \<mapsto> ''text/html'']"]) (erule impE, assumption, erule conjE, assumption)
  have v: "(?gen ++ [''accept'' \<mapsto> ''text/html'']) ''accept'' = Some ''text/html''"
    by simp
  from e c v show ?thesis
    by (simp only: spread.simps simp_thms)
qed

section \<open>JavaScript numbers\<close>

text \<open>
  A JavaScript number is an IEEE double. The model keeps its three special values and
  takes a finite double as the real number it stands for. The result of an addition,
  multiplication or division of finite numbers is rounded to a double: the rounding is the
  parameter \<open>rd\<close> of the arithmetic below (for the code: to the nearest double, ties to
  even), and every theorem holds for every rounding. \<open>NaN\<close> propagates through
  arithmetic, every comparison with \<open>NaN\<close> is false, and division by zero gives an
  infinity or \<open>NaN\<close>, as in the language. The overflow of a finite result to an infinity
  and the sign of zero are not modelled; every zero divisor below is a non-negative count
  or size, that is \<open>+0\<close>. \<open>Math.round\<close> is exact: it gives the integer nearest to its
  argument, the larger one on a tie.
\<close>

datatype jsnum = Fin real | PInf | NInf | NaN

fun js_neg :: "jsnum \<Rightarrow> jsnum" where
  "js_neg (Fin a) = Fin (- a)"
| "js_neg PInf = NInf"
| "js_neg NInf = PInf"
| "js_neg NaN = NaN"

fun js_add :: "(real \<Rightarrow> real) \<Rightarrow> jsnum \<Rightarrow> jsnum \<Rightarrow> jsnum" where
  "js_add rd NaN _ = NaN"
| "js_add rd _ NaN = NaN"
| "js_add rd (Fin a) (Fin b) = Fin (rd (a + b))"
| "js_add rd PInf NInf = NaN"
| "js_add rd NInf PInf = NaN"
| "js_add rd PInf _ = PInf"
| "js_add rd NInf _ = NInf"
| "js_add rd (Fin a) b = b"

definition js_sub :: "(real \<Rightarrow> real) \<Rightarrow> jsnum \<Rightarrow> jsnum \<Rightarrow> jsnum" where
  "js_sub rd a b = js_add rd a (js_neg b)"

fun js_sign_inf :: "bool \<Rightarrow> jsnum" where
  "js_sign_inf True = PInf"
| "js_sign_inf False = NInf"

fun js_mul :: "(real \<Rightarrow> real) \<Rightarrow> jsnum \<Rightarrow> jsnum \<Rightarrow> jsnum" where
  "js_mul rd NaN _ = NaN"
| "js_mul rd _ NaN = NaN"
| "js_mul rd (Fin a) (Fin b) = Fin (rd (a * b))"
| "js_mul rd (Fin a) PInf = (if a = 0 then NaN else js_sign_inf (0 < a))"
| "js_mul rd (Fin a) NInf = (if a = 0 then NaN else js_sign_inf (a < 0))"
| "js_mul rd PInf (Fin b) = (if b = 0 then NaN else js_sign_inf (0 < b))"
| "js_mul rd NInf (Fin b) = (if b = 0 then NaN else js_sign_inf (b < 0))"
| "js_mul rd PInf PInf = PInf"
| "js_mul rd NInf NInf = PInf"
| "js_mul rd PInf NInf = NInf"
| "js_mul rd NInf PInf = NInf"

fun js_div :: "(real \<Rightarrow> real) \<Rightarrow> jsnum \<Rightarrow> jsnum \<Rightarrow> jsnum" where
  "js_div rd NaN _ = NaN"
| "js_div rd _ NaN = NaN"
| "js_div rd (Fin a) (Fin b) =
     (if b \<noteq> 0 then Fin (rd (a / b)) else if a = 0 then NaN else js_sign_inf (0 < a))"
| "js_div rd (Fin a) _ = Fin 0"
| "js_div rd PInf (Fin b) = js_sign_inf (0 \<le> b)"
| "js_div rd NInf (Fin b) = js_sign_inf (b < 0)"
| "js_div rd _ _ = NaN"

fun js_lt :: "jsnum \<Rightarrow> jsnum \<Rightarrow> bool" where
  "js_lt NaN _ = False"
| "js_lt _ NaN = False"
| "js_lt (Fin a) (Fin b) = (a < b)"
| "js_lt NInf NInf = False"
| "js_lt NInf _ = True"
| "js_lt _ NInf = False"
| "js_lt PInf _ = False"
| "js_lt _ PInf = True"

definition js_gt :: "jsnum \<Rightarrow> jsnum \<Rightarrow> bool" where
  "js_gt a b = js_lt b a"

fun isNaN :: "jsnum \<Rightarrow> bool" where
  "isNaN NaN = True"
| "isNaN _ = False"

fun Math_round :: "jsnum \<Rightarrow> jsnum" where
  "Math_round (Fin a) = Fin (of_int \<lfloor>a + 1 / 2\<rfloor>)"
| "Math_round x = x"

section \<open>The TCP load agent (\<open>agentServer\<close>)\<close>

text \<open>
  \<^verbatim>\<open>src/index.ts\<close>, the handler of every accepted connection:
  \<^verbatim>\<open>
  try {
    const load1 = os.loadavg()[0];
    const cpuCores = os.cpus().length;
    const cpuLoadPct = (load1 / cpuCores) * 100;
    const totalMem = os.totalmem();
    const freeMem = os.freemem();
    const usedMemPct = ((totalMem - freeMem) / totalMem) * 100;
    const combinedPct = (cpuLoadPct + usedMemPct) / 2;
    let weight = 256 - combinedPct * 2;
    if (weight < 1) weight = 1;
    if (weight > 256) weight = 256;
    socket.write(`up ${Math.round(weight)}\n`);
  } catch (err) {
    socket.write("down\n");
  } finally {
    socket.end();
  }
  \<close>
  The four readings of the operating system are the input: \<open>Some s\<close> when all four calls
  return, \<open>None\<close> when one of them throws. The output is the list of operations on the
  socket; \<open>Write (Up v)\<close> is the line \<open>up\<close> followed by the text of the number \<open>v\<close>,
  \<open>Write Down\<close> the line \<open>down\<close>.
\<close>

record os_sample =
  loadavg1 :: real
  cpus_length :: nat
  totalmem :: real
  freemem :: real

datatype agent_line = Up jsnum | Down

datatype socket_op = Write agent_line | End

definition load_weight :: "(real \<Rightarrow> real) \<Rightarrow> os_sample \<Rightarrow> jsnum" where
  "load_weight rd s =
     (let load1 = Fin (loadavg1 s);
          cpuCores = Fin (of_nat (cpus_length s));
          cpuLoadPct = js_mul rd (js_div rd load1 cpuCores) (Fin 100);
          totalMem = Fin (totalmem s);
          freeMem = Fin (freemem s);
          usedMemPct = js_mul rd (js_div rd (js_sub rd totalMem freeMem) totalMem) (Fin 100);
          combinedPct = js_div rd (js_add rd cpuLoadPct usedMemPct) (Fin 2)
      in js_sub rd (Fin 256) (js_mul rd combinedPct (Fin 2)))"

definition clamp_weight :: "jsnum \<Rightarrow> jsnum" where
  "clamp_weight w =
     (let w1 = (if js_lt w (Fin 1) then Fin 1 else w);
          w2 = (if js_gt w1 (Fin 256) then Fin 256 else w1)
      in w2)"

definition agentServer :: "(real \<Rightarrow> real) \<Rightarrow> os_sample option \<Rightarrow> socket_op list" where
  "agentServer rd os =
     (case os of
        Some s \<Rightarrow> [Write (Up (Math_round (clamp_weight (load_weight rd s)))), End]
      | None \<Rightarrow> [Write Down, End])"

subsection \<open>Properties of the load agent\<close>

lemma clamp_round_range:
  assumes "w \<noteq> NaN"
  shows "\<exists>n::int. Math_round (clamp_weight w) = Fin (of_int n) \<and> 1 \<le> n \<and> n \<le> 256"
proof (cases w)
  case (Fin a)
  show ?thesis
  proof (cases "a < 1")
    case True
    then show ?thesis using Fin by (simp add: clamp_weight_def js_gt_def)
  next
    case False
    show ?thesis
    proof (cases "256 < a")
      case True
      with False Fin show ?thesis by (simp add: clamp_weight_def js_gt_def)
    next
      case b: False
      have "1 \<le> \<lfloor>a + 1 / 2\<rfloor>" "\<lfloor>a + 1 / 2\<rfloor> \<le> 256"
        using False b by linarith+
      with False b Fin show ?thesis by (simp add: clamp_weight_def js_gt_def)
    qed
  qed
next
  case PInf
  then show ?thesis by (simp add: clamp_weight_def js_gt_def)
next
  case NInf
  then show ?thesis by (simp add: clamp_weight_def js_gt_def)
next
  case NaN
  with assms show ?thesis by simp
qed

lemma load_weight_finite:
  assumes "0 < cpus_length s" "totalmem s \<noteq> 0"
  shows "\<exists>x. load_weight rd s = Fin x"
  using assms by (simp add: load_weight_def js_sub_def Let_def)

lemma agentServer_one_line: "\<exists>l. agentServer rd os = [Write l, End]"
  by (cases os) (simp_all add: agentServer_def)

lemma agentServer_up_in_range:
  assumes "0 < cpus_length s" and "totalmem s \<noteq> 0"
  shows "\<exists>n::int. agentServer rd (Some s) = [Write (Up (Fin (of_int n))), End] \<and> 1 \<le> n \<and> n \<le> 256"
proof -
  from load_weight_finite [OF assms, of rd] have "load_weight rd s \<noteq> NaN"
    by auto
  from clamp_round_range [OF this] show ?thesis
    by (auto simp: agentServer_def)
qed

text \<open>With exact arithmetic, a load average of 1 on 4 cores and half of the memory in use
  give the weight 181.\<close>

lemma agentServer_example:
  "agentServer (\<lambda>x. x)
     (Some \<lparr>loadavg1 = 1, cpus_length = 4, totalmem = 8000000000, freemem = 4000000000\<rparr>)
     = [Write (Up (Fin 181)), End]"
  by (simp add: agentServer_def load_weight_def clamp_weight_def js_sub_def js_gt_def Let_def)

text \<open>
  Claim C8. Every connection gets exactly one line, \<open>down\<close> or \<open>up N\<close> with \<open>N\<close> an integer from
  1 to 256. The code writes exactly one line (\<open>agentServer_one_line\<close>), and the weight is in
  range whenever a CPU is reported and the memory size is not zero
  (\<open>agentServer_up_in_range\<close>). It is not in range when \<open>os.cpus()\<close> is empty and the load
  average is zero: \<open>0 / 0\<close> is \<open>NaN\<close> whatever the rounding, both clamping comparisons are
  false on \<open>NaN\<close>, \<open>Math.round\<close> keeps it, and the line written is \<open>up NaN\<close>.
\<close>

theorem agentServer_writes_up_NaN:
  "agentServer rd (Some \<lparr>loadavg1 = 0, cpus_length = 0, totalmem = 8000000000, freemem = 4000000000\<rparr>)
     = [Write (Up NaN), End]"
  by (simp add: agentServer_def load_weight_def clamp_weight_def js_sub_def js_gt_def Let_def)

section \<open>JavaScript values\<close>

text \<open>
  The product schema is the result of \<open>JSON.parse\<close>, typed \<^verbatim>\<open>Record<string, any>\<close>: its
  fields are dynamically typed. \<open>jsval\<close> is a JSON value or \<open>undefined\<close>; an object is
  the list of its own properties (\<open>JSON.parse\<close> leaves no key twice). \<open>TypeError\<close> is
  what the language throws when a property of \<open>undefined\<close> or \<open>null\<close> is read or a value
  that is not a function is called; \<open>Thrown m\<close> is \<^verbatim>\<open>throw new Error(m)\<close>.
\<close>

datatype js_error = TypeError | Thrown string

datatype jsval =
    JUndefined
  | JNull
  | JBool bool
  | JNum jsnum
  | JStr string
  | JArr "jsval list"
  | JObj "(string \<times> jsval) list"

definition bind_res :: "js_error + 'a \<Rightarrow> ('a \<Rightarrow> js_error + 'b) \<Rightarrow> js_error + 'b" where
  "bind_res m f = (case m of Inl e \<Rightarrow> Inl e | Inr x \<Rightarrow> f x)"

text \<open>
  Truthiness, the operators \<open>||\<close>, \<open>&&\<close> and \<open>??\<close>, and reading a property. None of
  the keys the handlers read is a property of the string, number, boolean or array
  prototypes, so reading one from such a value gives \<open>undefined\<close>.
\<close>

fun truthy :: "jsval \<Rightarrow> bool" where
  "truthy JUndefined = False"
| "truthy JNull = False"
| "truthy (JBool b) = b"
| "truthy (JNum n) = (n \<noteq> NaN \<and> n \<noteq> Fin 0)"
| "truthy (JStr s) = (s \<noteq> [])"
| "truthy (JArr xs) = True"
| "truthy (JObj kvs) = True"

fun nullish :: "jsval \<Rightarrow> bool" where
  "nullish JUndefined = True"
| "nullish JNull = True"
| "nullish _ = False"

definition js_or :: "jsval \<Rightarrow> jsval \<Rightarrow> jsval" where
  "js_or a b = (if truthy a then a else b)"

definition js_and :: "jsval \<Rightarrow> jsval \<Rightarrow> jsval" where
  "js_and a b = (if truthy a then b else a)"

definition js_coalesce :: "jsval \<Rightarrow> jsval \<Rightarrow> jsval" where
  "js_coalesce a b = (if nullish a then b else a)"

definition own_prop :: "(string \<times> jsval) list \<Rightarrow> string \<Rightarrow> jsval" where
  "own_prop kvs k = (case map_of kvs k of None \<Rightarrow> JUndefined | Some v \<Rightarrow> v)"

fun get_prop :: "jsval \<Rightarrow> string \<Rightarrow> js_error + jsval" where
  "get_prop JUndefined k = Inl TypeError"
| "get_prop JNull k = Inl TypeError"
| "get_prop (JObj kvs) k = Inr (own_prop kvs k)"
| "get_prop _ k = Inr JUndefined"

text \<open>
  The string functions the handlers call are not part of the code under verification:
  \<open>trim\<close>, \<open>toLowerCase\<close> and \<open>parseFloat\<close> are built in, and \<open>cleanText\<close>
  (\<^verbatim>\<open>src/unnamed/part_000\<close>) trims, collapses white space and replaces typographic quotes
  that the 8-bit characters of \<^typ>\<open>string\<close> do not hold. They are parameters, collected in
  a record, and every theorem below holds for every choice of them. A method called on a
  value that is not a string is a call of \<open>undefined\<close> (JSON data holds no functions): a
  \<open>TypeError\<close>.
\<close>

record js_strings =
  trim :: "string \<Rightarrow> string"
  toLowerCase :: "string \<Rightarrow> string"
  parseFloat :: "string \<Rightarrow> jsnum"
  cleanText :: "string \<Rightarrow> string"

fun call_trim :: "js_strings \<Rightarrow> jsval \<Rightarrow> js_error + jsval" where
  "call_trim env (JStr s) = Inr (JStr (trim env s))"
| "call_trim env _ = Inl TypeError"

fun call_toLowerCase :: "js_strings \<Rightarrow> jsval \<Rightarrow> js_error + jsval" where
  "call_toLowerCase env (JStr s) = Inr (JStr (toLowerCase env s))"
| "call_toLowerCase env _ = Inl TypeError"

fun call_endsWith :: "jsval \<Rightarrow> string \<Rightarrow> js_error + jsval" where
  "call_endsWith (JStr s) e = Inr (JBool (suffix e s))"
| "call_endsWith _ e = Inl TypeError"

fun call_cleanText :: "js_strings \<Rightarrow> jsval \<Rightarrow> js_error + jsval" where
  "call_cleanText env (JStr s) = Inr (JStr (cleanText env s))"
| "call_cleanText env _ = Inl TypeError"

text \<open>
  \<^verbatim>\<open>x?.trim().toLowerCase()\<close>: the optional chain stops with \<open>undefined\<close> when \<open>x\<close> is
  \<open>undefined\<close> or \<open>null\<close>. \<open>[...].includes(v)\<close> on an array of strings is true only for
  a string of the array.
\<close>

definition opt_trim_lower :: "js_strings \<Rightarrow> jsval \<Rightarrow> js_error + jsval" where
  "opt_trim_lower env v =
     (if nullish v then Inr JUndefined
      else bind_res (call_trim env v) (call_toLowerCase env))"

definition array_includes :: "string list \<Rightarrow> jsval \<Rightarrow> bool" where
  "array_includes names v = (case v of JStr s \<Rightarrow> s \<in> set names | _ \<Rightarrow> False)"

text \<open>
  \<^verbatim>\<open>
  const findInMaybeArray = (data: any, predicate: (data: any) => boolean) =>
    (data &&
      (Array.isArray(data) ? data.find(predicate) : predicate(data) && data)) ||
    null;
  const isOffer = (offer: any) =>
    ["aggregateoffer", "offer"].includes(offer["@type"]?.trim().toLowerCase());
  \<close>
  A predicate may throw, which ends the search.
\<close>

fun array_find :: "(jsval \<Rightarrow> js_error + bool) \<Rightarrow> jsval list \<Rightarrow> js_error + jsval" where
  "array_find predicate [] = Inr JUndefined"
| "array_find predicate (x # xs) =
     bind_res (predicate x) (\<lambda>b. if b then Inr x else array_find predicate xs)"

definition findInMaybeArray :: "jsval \<Rightarrow> (jsval \<Rightarrow> js_error + bool) \<Rightarrow> js_error + jsval" where
  "findInMaybeArray data predicate =
     (if \<not> truthy data then Inr JNull
      else case data of
        JArr xs \<Rightarrow> bind_res (array_find predicate xs) (\<lambda>r. Inr (js_or r JNull))
      | _ \<Rightarrow> bind_res (predicate data) (\<lambda>b. Inr (js_or (js_and (JBool b) data) JNull)))"

definition isOffer :: "js_strings \<Rightarrow> jsval \<Rightarrow> js_error + bool" where
  "isOffer env offer =
     bind_res (get_prop offer ''@type'') (\<lambda>t.
     bind_res (opt_trim_lower env t) (\<lambda>l.
     Inr (array_includes [''aggregateoffer'', ''offer''] l)))"

definition isProduct :: "js_strings \<Rightarrow> jsval \<Rightarrow> js_error + bool" where
  "isProduct env data =
     bind_res (get_prop data ''@type'') (\<lambda>t.
     bind_res (opt_trim_lower env t) (\<lambda>l.
     Inr (array_includes [''product'', ''productgroup''] l)))"

section \<open>Item records from a product schema (\<open>getItemInfoFromProductSchema\<close>)\<close>

text \<open>
  \<^verbatim>\<open>src/lib/siteHandlerUsingProductSchemaAxios.ts\<close>; the no-stealth handler is the same
  but for the raw price, which there is \<^verbatim>\<open>offer.lowPrice ?? offer.minPrice ?? offer.price\<close>.
  \<^verbatim>\<open>
  const name = cleanText(product.name || "") as string | null;
  if (!name) throw new Error("Missing name");
  const _image = (findInMaybeArray(product.image, () => true)?.trim() || null) as string | null;
  const image = _image && cleanImageUrl(_image, origin);
  const offer = findInMaybeArray(product.offers, isOffer);
  if (!offer) throw new Error("Could not find product offer");
  const currency = offer.priceCurrency?.trim().toLowerCase();
  if (currency && currency !== "usd") { throw new Error("Item price is not in USD"); }
  const rawPrice =
    offer.lowPrice ?? offer.minPrice ?? offer.price ??
    (Array.isArray(offer.priceSpecification) ? offer.priceSpecification[0]?.price : undefined);
  const price =
    typeof rawPrice === "number" ? rawPrice
      : typeof rawPrice === "string" ? parseFloat(rawPrice.trim()) : NaN;
  if (isNaN(price) || price < 0) { throw new Error("Invalid price"); }
  const availability = offer.availability?.trim().toLowerCase().endsWith("/instock");
  if (typeof availability !== "boolean") { throw new Error("Invalid availability"); }
  return { name, image, price, available: availability };
  \<close>
  The function is modelled statement by statement, each statement a definition that
  returns the value it binds or the error it throws. The fields of the record returned
  are dynamically typed values, so that their types are a matter of proof.
\<close>

record item_info =
  name :: jsval
  image' :: jsval
  price :: jsval
  available :: jsval

definition item_name :: "js_strings \<Rightarrow> (string \<times> jsval) list \<Rightarrow> js_error + jsval" where
  "item_name env product =
     bind_res (call_cleanText env (js_or (own_prop product ''name'') (JStr []))) (\<lambda>name.
     if \<not> truthy name then Inl (Thrown ''Missing name'') else Inr name)"

definition item_image :: "js_strings \<Rightarrow> (string \<times> jsval) list \<Rightarrow> string \<Rightarrow> js_error + jsval" where
  "item_image env product origin =
     bind_res (findInMaybeArray (own_prop product ''image'') (\<lambda>_. Inr True)) (\<lambda>found.
     bind_res (if nullish found then Inr JUndefined else call_trim env found) (\<lambda>trimmed.
     let image0 = js_or trimmed JNull
     in if truthy image0
        then (case image0 of JStr s \<Rightarrow> Inr (JStr (cleanImageUrl s origin)) | _ \<Rightarrow> Inl TypeError)
        else Inr image0))"

definition item_offer :: "js_strings \<Rightarrow> (string \<times> jsval) list \<Rightarrow> js_error + jsval" where
  "item_offer env product =
     bind_res (findInMaybeArray (own_prop product ''offers'') (isOffer env)) (\<lambda>offer.
     if \<not> truthy offer then Inl (Thrown ''Could not find product offer'') else Inr offer)"

definition check_currency :: "js_strings \<Rightarrow> jsval \<Rightarrow> js_error + unit" where
  "check_currency env offer =
     bind_res (get_prop offer ''priceCurrency'') (\<lambda>pc.
     bind_res (opt_trim_lower env pc) (\<lambda>currency.
     if truthy currency \<and> currency \<noteq> JStr ''usd''
     then Inl (Thrown ''Item price is not in USD'') else Inr ()))"

definition priceSpecification_price :: "jsval \<Rightarrow> js_error + jsval" where
  "priceSpecification_price offer =
     bind_res (get_prop offer ''priceSpecification'') (\<lambda>ps.
     case ps of
       JArr xs \<Rightarrow>
         (let first = (case xs of [] \<Rightarrow> JUndefined | x # _ \<Rightarrow> x)
          in if nullish first then Inr JUndefined else get_prop first ''price'')
     | _ \<Rightarrow> Inr JUndefined)"

definition raw_price_axios :: "jsval \<Rightarrow> js_error + jsval" where
  "raw_price_axios offer =
     bind_res (get_prop offer ''lowPrice'') (\<lambda>lowPrice.
     if \<not> nullish lowPrice then Inr lowPrice else
     bind_res (get_prop offer ''minPrice'') (\<lambda>minPrice.
     if \<not> nullish minPrice then Inr minPrice else
     bind_res (get_prop offer ''price'') (\<lambda>price.
     if \<not> nullish price then Inr price else priceSpecification_price offer)))"

definition raw_price_nostealth :: "jsval \<Rightarrow> js_error + jsval" where
  "raw_price_nostealth offer =
     bind_res (get_prop offer ''lowPrice'') (\<lambda>lowPrice.
     if \<not> nullish lowPrice then Inr lowPrice else
     bind_res (get_prop offer ''minPrice'') (\<lambda>minPrice.
     if \<not> nullish minPrice then Inr minPrice else
     get_prop offer ''price''))"

definition to_price :: "js_strings \<Rightarrow> jsval \<Rightarrow> jsnum" where
  "to_price env rawPrice =
     (case rawPrice of
        JNum n \<Rightarrow> n
      | JStr s \<Rightarrow> parseFloat env (trim env s)
      | _ \<Rightarrow> NaN)"

definition check_price :: "jsnum \<Rightarrow> js_error + jsval" where
  "check_price p =
     (if isNaN p \<or> js_lt p (Fin 0) then Inl (Thrown ''Invalid price'') else Inr (JNum p))"

definition item_available :: "js_strings \<Rightarrow> jsval \<Rightarrow> js_error + jsval" where
  "item_available env offer =
     bind_res (get_prop offer ''availability'') (\<lambda>a.
     bind_res (if nullish a then Inr JUndefined
               else bind_res (opt_trim_lower env a) (\<lambda>l. call_endsWith l ''/instock'')) (\<lambda>availability.
     case availability of
       JBool b \<Rightarrow> Inr (JBool b)
     | _ \<Rightarrow> Inl (Thrown ''Invalid availability'')))"

definition item_info_from ::
  "(jsval \<Rightarrow> js_error + jsval) \<Rightarrow> js_strings \<Rightarrow> (string \<times> jsval) list \<Rightarrow> string \<Rightarrow> js_error + item_info" where
  "item_info_from raw_price env product origin =
     bind_res (item_name env product) (\<lambda>n.
     bind_res (item_image env product origin) (\<lambda>i.
     bind_res (item_offer env product) (\<lambda>offer.
     bind_res (check_currency env offer) (\<lambda>_.
     bind_res (raw_price offer) (\<lambda>rawPrice.
     bind_res (check_price (to_price env rawPrice)) (\<lambda>p.
     bind_res (item_available env offer) (\<lambda>a.
     Inr \<lparr>name = n, image' = i, price = p, available = a\<rparr>)))))))"

definition getItemInfoFromProductSchema_axios ::
  "js_strings \<Rightarrow> (string \<times> jsval) list \<Rightarrow> string \<Rightarrow> js_error + item_info" where
  "getItemInfoFromProductSchema_axios = item_info_from raw_price_axios"

definition getItemInfoFromProductSchema_nostealth ::
  "js_strings \<Rightarrow> (string \<times> jsval) list \<Rightarrow> string \<Rightarrow> js_error + item_info" where
  "getItemInfoFromProductSchema_nostealth = item_info_from raw_price_nostealth"



subsection \<open>Properties of \<open>getItemInfoFromProductSchema\<close>\<close>









subsection \<open>A run on a sample product\<close>

text \<open>
  The string functions on ASCII text, to run the handlers on a concrete product:
  white space is tab, line feed, vertical tab, form feed, carriage return and space,
  case folding maps \<open>A\<close>--\<open>Z\<close>, and \<open>parseFloat\<close> is given on unsigned decimal integers
  (anything else is \<open>NaN\<close> here).
\<close>

definition is_space :: "char \<Rightarrow> bool" where
  "is_space c \<longleftrightarrow> c \<in> set [CHR 0x09, CHR 0x0A, CHR 0x0B, CHR 0x0C, CHR 0x0D, CHR '' '']"

definition trim_ascii :: "string \<Rightarrow> string" where
  "trim_ascii s = rev (dropWhile is_space (rev (dropWhile is_space s)))"

definition lower_char :: "char \<Rightarrow> char" where
  "lower_char c =
     (case map_of (zip ''ABCDEFGHIJKLMNOPQRSTUVWXYZ'' ''abcdefghijklmnopqrstuvwxyz'') c of
        Some d \<Rightarrow> d
      | None \<Rightarrow> c)"

definition lower_ascii :: "string \<Rightarrow> string" where
  "lower_ascii s = map lower_char s"

definition is_digit :: "char \<Rightarrow> bool" where
  "is_digit c \<longleftrightarrow> c \<in> set ''0123456789''"

definition digit_val :: "char \<Rightarrow> nat" where
  "digit_val c = length (takeWhile (\<lambda>d. d \<noteq> c) ''0123456789'')"

definition parse_digits :: "string \<Rightarrow> jsnum" where
  "parse_digits s =
     (if s \<noteq> [] \<and> list_all is_digit s
      then Fin (real (foldl (\<lambda>a c. 10 * a + digit_val c) 0 s))
      else NaN)"

definition ascii_strings :: js_strings where
  "ascii_strings = \<lparr>trim = trim_ascii, toLowerCase = lower_ascii,
                     parseFloat = parse_digits, cleanText = trim_ascii\<rparr>"

definition sample_product :: "(string \<times> jsval) list" where
  "sample_product =
     [(''name'', JStr '' Widget ''),
      (''image'', JArr [JStr ''//cdn.example/w.png'']),
      (''offers'', JObj [(''@type'', JStr ''Offer''),
                         (''priceCurrency'', JStr ''USD''),
                         (''price'', JStr ''42''),
                         (''availability'', JStr ''https://schema.org/InStock'')])]"

lemma trim_ascii_ex: "trim_ascii '' Widget '' = ''Widget''"
  by (simp add: trim_ascii_def is_space_def)

lemma lower_ex: "lower_ascii ''USD'' = ''usd''" "lower_ascii ''Offer'' = ''offer''"
  "lower_ascii ''https://schema.org/InStock'' = ''https://schema.org/instock''"
  by (simp_all add: lower_ascii_def lower_char_def)

lemma sample_axios:
  "getItemInfoFromProductSchema_axios ascii_strings sample_product ''https://shop.example'' =
     Inr \<lparr>name = JStr ''Widget'', image' = JStr ''https://cdn.example/w.png'',
          price = JNum (Fin 42), available = JBool True\<rparr>"
  by (simp add: getItemInfoFromProductSchema_axios_def item_info_from_def sample_product_def
      ascii_strings_def item_name_def item_image_def item_offer_def check_currency_def
      raw_price_axios_def to_price_def check_price_def item_available_def bind_res_def
      own_prop_def js_or_def js_and_def findInMaybeArray_def isOffer_def opt_trim_lower_def
      array_includes_def trim_ascii_def is_space_def lower_ex parse_digits_def is_digit_def digit_val_def
      cleanImageUrl_def startsWith_def suffix_def)

lemma sample_nostealth_no_name:
  "getItemInfoFromProductSchema_nostealth ascii_strings [(''name'', JStr ''  '')] ''https://shop.example''
     = Inl (Thrown ''Missing name'')"
  by (simp add: getItemInfoFromProductSchema_nostealth_def item_info_from_def ascii_strings_def
      item_name_def bind_res_def own_prop_def js_or_def trim_ascii_def is_space_def)


section \<open>The port pool and the hostname gate\<close>

text \<open>
  The scheduler state shared by all fetch calls on one \<open>Proxy\<close> object
  (\<^verbatim>\<open>src/lib/ProxyLegacy.ts\<close>, \<^verbatim>\<open>src/lib/ProxyAxios.ts\<close>; the no-stealth and Playwright
  variants have the same fields):
  \<^verbatim>\<open>
  interface ProxyPort { value: number; hostnames: Set<string>; hostnamesMutex: Mutex; ... }
  private ports: ProxyPort[];
  private semaphores: Record<string, Semaphore> = {};
  private sameHostnameSuccessDelay: number;
  private sameHostnameErrorDelay: number;
  private maxTries: number;
  \<close>
  The configuration is the constructor's argument. A port is known by its index in
  \<open>ports\<close> (the identity of its \<open>ProxyPort\<close> object); delays are milliseconds.
\<close>

record config =
  ports :: "nat list"
  sameHostnameSuccessDelay :: nat
  sameHostnameErrorDelay :: nat
  maxTries :: int

text \<open>
  JavaScript runs one callback at a time, and a fetch call gives up control only at an
  \<open>await\<close>. In \<^verbatim>\<open>ProxyLegacy.ts\<close> and \<^verbatim>\<open>ProxyAxios.ts\<close> every path of an attempt that
  has its port calls \<open>waitAndRelease\<close> exactly once: on success just before \<open>return\<close>, with
  nothing after it that can throw, and otherwise in the \<open>catch\<close>. (The no-stealth and
  Playwright variants \<open>await\<close> the closing of the page after \<open>waitAndRelease()\<close>, inside the
  same \<open>try\<close>, and so can call it a second time; the moves below are those of the first
  two files.) One attempt (one pass through \<open>fetch\<close> after the \<open>maxTries\<close> test) therefore
  moves through the phases below, and every move is atomic:
  \<^item> \<open>AwaitPermit h\<close>: the semaphore of \<open>h\<close> exists, \<^verbatim>\<open>semaphore.acquire()\<close> is pending;
  \<^item> \<open>Scanning h\<close>: the permit is held, \<open>getAvailablePort\<close> is looking for a port;
  \<^item> \<open>Running h p\<close>: port \<open>p\<close> is claimed, the backend is at work;
  \<^item> \<open>Cooling h p t ok\<close>: the outcome \<open>ok\<close> was known at time \<open>t\<close> and \<open>waitAndRelease(ok)\<close>
    was called; its \<open>sleep\<close> is pending;
  \<^item> \<open>Unclaimed h p t ok td\<close>: the deferred callback deleted the claim at time \<open>td\<close>;
  \<^item> \<open>Released h p t ok td tr\<close>: \<open>release()\<close> gave the permit back at time \<open>tr\<close>;
  \<^item> \<open>Leaked h p t ok\<close>: the deferred chain rejected and \<^verbatim>\<open>.catch(console.error)\<close> logged it;
  \<^item> \<open>Aborted h\<close>: \<open>getAvailablePort\<close> threw, the \<open>catch\<close> released the permit and rethrew.
\<close>

datatype phase =
    Idle
  | AwaitPermit string
  | Scanning string
  | Running string nat
  | Cooling string nat nat bool
  | Unclaimed string nat nat bool nat
  | Released string nat nat bool nat nat
  | Leaked string nat nat bool
  | Aborted string

record pool =
  clock :: nat
  hostnames :: "nat \<Rightarrow> string set"
  semaphores :: "string \<rightharpoonup> nat"
  phase :: "nat \<Rightarrow> phase"
  logged :: "nat list"

definition init :: pool where
  "init = \<lparr>clock = 0, hostnames = (\<lambda>_. {}), semaphores = Map.empty, phase = (\<lambda>_. Idle), logged = []\<rparr>"

text \<open>
  \<^verbatim>\<open>
  const waitAndRelease = (success = true) => {
    const delay = success ? this.sameHostnameSuccessDelay : this.sameHostnameErrorDelay;
    sleep(delay)
      .then(() => port.hostnamesMutex.runExclusive(() => { port.hostnames.delete(url.hostname); }))
      .then(release)
      .catch(console.error);
  };
  \<close>
\<close>

definition release_delay :: "config \<Rightarrow> bool \<Rightarrow> nat" where
  "release_delay cfg success =
     (if success then sameHostnameSuccessDelay cfg else sameHostnameErrorDelay cfg)"

text \<open>
  Modelled from the spec: \<open>sleep\<close> (\<^verbatim>\<open>src/lib/sleep.ts\<close> is imported by every scheduler
  but is not among the sources). The spec calls it a delay after which the release "is
  scheduled to run": the promise of \<open>sleep(ms)\<close>, made at time \<open>t\<close>, is resolved at no
  time before \<open>t + ms\<close>.
\<close>

definition sleep_elapsed :: "nat \<Rightarrow> nat \<Rightarrow> nat \<Rightarrow> bool" where
  "sleep_elapsed t ms now \<longleftrightarrow> t + ms \<le> now"

text \<open>
  The permit pool of \<^verbatim>\<open>async-mutex\<close>: \<^verbatim>\<open>this.semaphores[url.hostname] ??= new
  Semaphore(this.ports.length)\<close> creates the pool of a hostname on first use;
  \<open>acquire\<close> is granted only while a permit is left and takes one, and the
  release function gives one back.
\<close>

definition semaphore_for :: "config \<Rightarrow> string \<Rightarrow> pool \<Rightarrow> pool" where
  "semaphore_for cfg h st =
     (case semaphores st h of
        None \<Rightarrow> st\<lparr>semaphores := (semaphores st)(h \<mapsto> length (ports cfg))\<rparr>
      | Some v \<Rightarrow> st)"

definition sem_release :: "string \<Rightarrow> pool \<Rightarrow> pool" where
  "sem_release h st =
     (case semaphores st h of
        None \<Rightarrow> st
      | Some v \<Rightarrow> st\<lparr>semaphores := (semaphores st)(h \<mapsto> Suc v)\<rparr>)"

definition set_phase :: "nat \<Rightarrow> phase \<Rightarrow> pool \<Rightarrow> pool" where
  "set_phase a ph st = st\<lparr>phase := (phase st)(a := ph)\<rparr>"

text \<open>
  The atomic moves. \<open>Claim a p\<close> is the callback of \<open>getAvailablePort\<close> on port \<open>p\<close>
  returning \<open>true\<close>:
  \<^verbatim>\<open>
  const isAvailable = await port.hostnamesMutex.runExclusive(() => {
    if (port.hostnames.has(hostname)) return false;
    port.hostnames.add(hostname);
    return true;
  });
  if (isAvailable) return port;
  \<close>
  \<open>Tick d\<close> lets \<open>d\<close> milliseconds pass. A move that the code cannot make in the state
  it finds is \<open>None\<close>. Which attempt moves next, and through which free port, is left open:
  the permit and lock grant order of the library and the shuffle are not fixed here.
\<close>

datatype event =
    Tick nat
  | Start nat string
  | Acquire nat
  | Claim nat nat
  | AbortScan nat
  | Settle nat bool
  | Unclaim nat
  | Release nat
  | ChainFail nat

fun step :: "config \<Rightarrow> pool \<Rightarrow> event \<Rightarrow> pool option" where
  "step cfg st (Tick d) = Some (st\<lparr>clock := clock st + d\<rparr>)"
| "step cfg st (Start a h) =
     (case phase st a of
        Idle \<Rightarrow> Some (set_phase a (AwaitPermit h) (semaphore_for cfg h st))
      | _ \<Rightarrow> None)"
| "step cfg st (Acquire a) =
     (case phase st a of
        AwaitPermit h \<Rightarrow>
          (case semaphores st h of
             Some (Suc v) \<Rightarrow> Some (set_phase a (Scanning h) (st\<lparr>semaphores := (semaphores st)(h \<mapsto> v)\<rparr>))
           | _ \<Rightarrow> None)
      | _ \<Rightarrow> None)"
| "step cfg st (Claim a p) =
     (case phase st a of
        Scanning h \<Rightarrow>
          (if p < length (ports cfg) \<and> h \<notin> hostnames st p
           then Some (set_phase a (Running h p)
                  (st\<lparr>hostnames := (hostnames st)(p := insert h (hostnames st p))\<rparr>))
           else None)
      | _ \<Rightarrow> None)"
| "step cfg st (AbortScan a) =
     (case phase st a of
        Scanning h \<Rightarrow> Some (set_phase a (Aborted h) (sem_release h st))
      | _ \<Rightarrow> None)"
| "step cfg st (Settle a success) =
     (case phase st a of
        Running h p \<Rightarrow> Some (set_phase a (Cooling h p (clock st) success) st)
      | _ \<Rightarrow> None)"
| "step cfg st (Unclaim a) =
     (case phase st a of
        Cooling h p t success \<Rightarrow>
          (if sleep_elapsed t (release_delay cfg success) (clock st)
           then Some (set_phase a (Unclaimed h p t success (clock st))
                  (st\<lparr>hostnames := (hostnames st)(p := hostnames st p - {h})\<rparr>))
           else None)
      | _ \<Rightarrow> None)"
| "step cfg st (Release a) =
     (case phase st a of
        Unclaimed h p t success td \<Rightarrow>
          Some (set_phase a (Released h p t success td (clock st)) (sem_release h st))
      | _ \<Rightarrow> None)"
| "step cfg st (ChainFail a) =
     (case phase st a of
        Cooling h p t success \<Rightarrow>
          Some (set_phase a (Leaked h p t success) (st\<lparr>logged := logged st @ [a]\<rparr>))
      | _ \<Rightarrow> None)"

text \<open>A run is any sequence of moves; the states of the program are those a run from
  \<open>init\<close> reaches.\<close>

fun run :: "config \<Rightarrow> pool \<Rightarrow> event list \<Rightarrow> pool option" where
  "run cfg st [] = Some st"
| "run cfg st (e # es) = (case step cfg st e of None \<Rightarrow> None | Some st' \<Rightarrow> run cfg st' es)"

text \<open>
  An attempt is in flight for a hostname from the grant of its permit to its release,
  and holds the claim on (port, hostname) from the callback that added the hostname to
  the callback that deletes it.
\<close>

fun holds_permit :: "string \<Rightarrow> phase \<Rightarrow> bool" where
  "holds_permit h (Scanning h') = (h' = h)"
| "holds_permit h (Running h' p) = (h' = h)"
| "holds_permit h (Cooling h' p t s) = (h' = h)"
| "holds_permit h (Unclaimed h' p t s td) = (h' = h)"
| "holds_permit h (Leaked h' p t s) = (h' = h)"
| "holds_permit h _ = False"

fun holds_claim :: "nat \<Rightarrow> string \<Rightarrow> phase \<Rightarrow> bool" where
  "holds_claim p h (Running h' p') = (h' = h \<and> p' = p)"
| "holds_claim p h (Cooling h' p' t s) = (h' = h \<and> p' = p)"
| "holds_claim p h (Leaked h' p' t s) = (h' = h \<and> p' = p)"
| "holds_claim p h _ = False"

definition in_flight :: "pool \<Rightarrow> string \<Rightarrow> nat set" where
  "in_flight st h = {a. holds_permit h (phase st a)}"

text \<open>
  One pass of the \<open>for\<close> loop of \<open>getAvailablePort\<close> over the shuffled ports: the first
  port whose callback returns \<open>true\<close> is returned.
  \<^verbatim>\<open>
  private shuffleArray = <T>(array: T[]): T[] => {
    for (let i = array.length - 1; i > 0; i--) {
      const j = Math.floor(Math.random() * (i + 1));
      [array[i], array[j]] = [array[j], array[i]];
    }
    return array;
  };
  \<close>
  \<open>Math.random\<close> is a parameter: \<open>rnd i\<close> is the draw made at loop index \<open>i\<close>, taken
  modulo \<open>i + 1\<close>.
\<close>

fun shuffle_loop :: "nat \<Rightarrow> (nat \<Rightarrow> nat) \<Rightarrow> 'a list \<Rightarrow> 'a list" where
  "shuffle_loop 0 rnd array = array"
| "shuffle_loop (Suc i) rnd array =
     (let j = rnd (Suc i) mod (Suc i + 1)
      in shuffle_loop i rnd (array[Suc i := array ! j, j := array ! Suc i]))"

definition shuffleArray :: "(nat \<Rightarrow> nat) \<Rightarrow> 'a list \<Rightarrow> 'a list" where
  "shuffleArray rnd array = shuffle_loop (length array - 1) rnd array"

fun scan_ports :: "config \<Rightarrow> nat \<Rightarrow> nat list \<Rightarrow> pool \<Rightarrow> (nat \<times> pool) option" where
  "scan_ports cfg a [] st = None"
| "scan_ports cfg a (p # ps) st =
     (case step cfg st (Claim a p) of
        Some st' \<Rightarrow> Some (p, st')
      | None \<Rightarrow> scan_ports cfg a ps st)"

subsection \<open>Invariants of the pool\<close>

definition claims_exclusive :: "pool \<Rightarrow> bool" where
  "claims_exclusive st \<longleftrightarrow>
     (\<forall>a p h. holds_claim p h (phase st a) \<longrightarrow> h \<in> hostnames st p) \<and>
     (\<forall>a b p h. holds_claim p h (phase st a) \<longrightarrow> holds_claim p h (phase st b) \<longrightarrow> a = b)"

definition permits_balanced :: "config \<Rightarrow> pool \<Rightarrow> bool" where
  "permits_balanced cfg st \<longleftrightarrow>
     finite {a. phase st a \<noteq> Idle} \<and>
     (\<forall>h. semaphores st h = None \<longrightarrow> in_flight st h = {}) \<and>
     (\<forall>h v. semaphores st h = Some v \<longrightarrow> v + card (in_flight st h) = length (ports cfg))"

fun settled :: "phase \<Rightarrow> (string \<times> nat \<times> nat \<times> bool) option" where
  "settled (Cooling h p t s) = Some (h, p, t, s)"
| "settled (Unclaimed h p t s td) = Some (h, p, t, s)"
| "settled (Released h p t s td tr) = Some (h, p, t, s)"
| "settled (Leaked h p t s) = Some (h, p, t, s)"
| "settled _ = None"

definition timely :: "config \<Rightarrow> pool \<Rightarrow> bool" where
  "timely cfg st \<longleftrightarrow>
     (\<forall>a h p t s td. phase st a = Unclaimed h p t s td \<longrightarrow>
        t + release_delay cfg s \<le> td \<and> td \<le> clock st) \<and>
     (\<forall>a h p t s td tr. phase st a = Released h p t s td tr \<longrightarrow>
        t + release_delay cfg s \<le> td \<and> td \<le> tr \<and> tr \<le> clock st)"

definition cfg2 :: config where
  "cfg2 = \<lparr>ports = [10000, 10001], sameHostnameSuccessDelay = 500,
           sameHostnameErrorDelay = 2000, maxTries = 5\<rparr>"

definition run2 :: "event list" where
  "run2 = [Start 0 ''a.example'', Acquire 0, Start 1 ''a.example'', Claim 0 1, Acquire 1,
           Claim 1 0, Settle 0 True, Tick 500, Unclaim 0, Settle 1 False, Release 0]"

lemma set_phase_simps [simp]:
  "phase (set_phase a ph st) = (phase st)(a := ph)"
  "hostnames (set_phase a ph st) = hostnames st"
  "semaphores (set_phase a ph st) = semaphores st"
  "clock (set_phase a ph st) = clock st"
  "logged (set_phase a ph st) = logged st"
  by (simp_all add: set_phase_def)

lemma sem_release_simps [simp]:
  "phase (sem_release h st) = phase st"
  "hostnames (sem_release h st) = hostnames st"
  "clock (sem_release h st) = clock st"
  "logged (sem_release h st) = logged st"
  by (simp_all add: sem_release_def split: option.splits)

lemma semaphore_for_simps [simp]:
  "phase (semaphore_for cfg h st) = phase st"
  "hostnames (semaphore_for cfg h st) = hostnames st"
  "clock (semaphore_for cfg h st) = clock st"
  "logged (semaphore_for cfg h st) = logged st"
  by (simp_all add: semaphore_for_def split: option.splits)

lemma claims_exclusive_init: "claims_exclusive init"
  by (simp add: claims_exclusive_def init_def)

lemma holds_claim_cases:
  "holds_claim p h ph \<longleftrightarrow>
     ph = Running h p \<or> (\<exists>t s. ph = Cooling h p t s) \<or> (\<exists>t s. ph = Leaked h p t s)"
  by (cases ph) auto

lemma step_claims_exclusive:
  assumes "claims_exclusive st" and "step cfg st e = Some st'"
  shows "claims_exclusive st'"
proof (cases e)
  case (Tick d)
  with assms show ?thesis by (auto simp: claims_exclusive_def)
next
  case (Start a h)
  with assms show ?thesis
    by (auto simp: claims_exclusive_def split: phase.splits if_splits)
next
  case (Acquire a)
  with assms show ?thesis
    by (auto simp: claims_exclusive_def split: phase.splits if_splits option.splits nat.splits)
next
  case (Claim a p)
  with assms obtain h where ph: "phase st a = Scanning h" and free: "h \<notin> hostnames st p"
    and st': "st' = set_phase a (Running h p) (st\<lparr>hostnames := (hostnames st)(p := insert h (hostnames st p))\<rparr>)"
    by (auto split: phase.splits if_splits)
  from assms(1) free have none: "\<not> holds_claim p h (phase st b)" for b
    unfolding claims_exclusive_def by blast
  from assms(1) ph none show ?thesis
    unfolding claims_exclusive_def st' by (auto split: if_splits)
next
  case (AbortScan a)
  with assms show ?thesis
    by (auto simp: claims_exclusive_def split: phase.splits if_splits)
next
  case (Settle a s)
  with assms obtain h p where ph: "phase st a = Running h p"
    and st': "st' = set_phase a (Cooling h p (clock st) s) st"
    by (auto split: phase.splits)
  have eq: "holds_claim q g (phase st' b) = holds_claim q g (phase st b)" for q g b
    unfolding st' using ph by simp
  from assms(1) show ?thesis
    unfolding claims_exclusive_def eq unfolding st' by simp
next
  case (Unclaim a)
  with assms obtain h p t s where ph: "phase st a = Cooling h p t s"
    and st': "st' = set_phase a (Unclaimed h p t s (clock st))
                  (st\<lparr>hostnames := (hostnames st)(p := hostnames st p - {h})\<rparr>)"
    by (auto split: phase.splits if_splits)
  from assms(1) ph have only: "holds_claim p h (phase st b) \<Longrightarrow> b = a" for b
    unfolding claims_exclusive_def by (metis holds_claim.simps(2))
  from assms(1) ph only show ?thesis
    unfolding claims_exclusive_def st' by (auto split: if_splits)
next
  case (Release a)
  with assms show ?thesis
    by (auto simp: claims_exclusive_def split: phase.splits if_splits)
next
  case (ChainFail a)
  with assms obtain h p t s where ph: "phase st a = Cooling h p t s"
    and st': "st' = set_phase a (Leaked h p t s) (st\<lparr>logged := logged st @ [a]\<rparr>)"
    by (auto split: phase.splits)
  have eq: "holds_claim q g (phase st' b) = holds_claim q g (phase st b)" for q g b
    unfolding st' using ph by simp
  from assms(1) show ?thesis
    unfolding claims_exclusive_def eq unfolding st' by simp
qed

lemma run_claims_exclusive:
  "claims_exclusive st \<Longrightarrow> run cfg st es = Some st' \<Longrightarrow> claims_exclusive st'"
  by (induction es arbitrary: st) (auto split: option.splits dest: step_claims_exclusive)

lemma scan_ports_claims:
  "scan_ports cfg a ps st = Some (p, st') \<Longrightarrow> p \<in> set ps \<and> step cfg st (Claim a p) = Some st'"
  by (induction ps) (auto split: option.splits)

lemma permits_balancedI:
  assumes "finite {a. phase st a \<noteq> Idle}"
    and "\<And>h. semaphores st h = None \<Longrightarrow> in_flight st h = {}"
    and "\<And>h v. semaphores st h = Some v \<Longrightarrow> v + card (in_flight st h) = length (ports cfg)"
  shows "permits_balanced cfg st"
  using assms unfolding permits_balanced_def by blast

lemma permits_balanced_busy: "permits_balanced cfg st \<Longrightarrow> finite {a. phase st a \<noteq> Idle}"
  by (simp add: permits_balanced_def)

lemma permits_balanced_None:
  "permits_balanced cfg st \<Longrightarrow> semaphores st h = None \<Longrightarrow> in_flight st h = {}"
  by (simp add: permits_balanced_def)

lemma permits_balanced_Some:
  "permits_balanced cfg st \<Longrightarrow> semaphores st h = Some v \<Longrightarrow>
     v + card (in_flight st h) = length (ports cfg)"
  by (simp add: permits_balanced_def)

lemma in_flight_finite: "finite {a. phase st a \<noteq> Idle} \<Longrightarrow> finite (in_flight st h)"
  by (rule finite_subset [where B = "{a. phase st a \<noteq> Idle}"]) (auto simp: in_flight_def)

lemma in_flight_set_phase:
  "in_flight (set_phase a ph st) h =
     (if holds_permit h ph then insert a (in_flight st h) else in_flight st h - {a})"
  by (auto simp: in_flight_def)

lemma in_flight_fields [simp]:
  "in_flight (st\<lparr>hostnames := hs\<rparr>) h = in_flight st h"
  "in_flight (st\<lparr>semaphores := ss\<rparr>) h = in_flight st h"
  "in_flight (st\<lparr>clock := c\<rparr>) h = in_flight st h"
  "in_flight (st\<lparr>logged := l\<rparr>) h = in_flight st h"
  "in_flight (sem_release g st) h = in_flight st h"
  "in_flight (semaphore_for cfg g st) h = in_flight st h"
  by (simp_all add: in_flight_def)

lemma busy_set_phase:
  "finite {x. phase st x \<noteq> Idle} \<Longrightarrow> finite {x. phase (set_phase a ph st) x \<noteq> Idle}"
  by (rule finite_subset [where B = "insert a {x. phase st x \<noteq> Idle}"]) auto


lemma permits_balanced_phase_keep:
  assumes inv: "permits_balanced cfg st"
    and same: "\<And>h. holds_permit h ph = holds_permit h (phase st a)"
    and sem: "semaphores st' = semaphores st" and ph: "phase st' = (phase st)(a := ph)"
  shows "permits_balanced cfg st'"
proof -
  have keep: "in_flight st' h = in_flight st h" for h
    using same [of h] ph by (auto simp: in_flight_def)
  have "{x. phase st' x \<noteq> Idle} \<subseteq> insert a {x. phase st x \<noteq> Idle}"
    using ph by auto
  then have "finite {x. phase st' x \<noteq> Idle}"
    using permits_balanced_busy [OF inv] by (meson finite_insert finite_subset)
  then show ?thesis
    using permits_balanced_None [OF inv] permits_balanced_Some [OF inv]
    by (intro permits_balancedI) (simp_all add: keep sem)
qed

lemma permits_balanced_give_back:
  assumes inv: "permits_balanced cfg st"
    and held: "holds_permit h (phase st a)"
    and ph: "\<And>g. \<not> holds_permit g ph"
  shows "permits_balanced cfg (set_phase a ph (sem_release h st))"
proof (rule permits_balancedI)
  note fin = permits_balanced_busy [OF inv]
  from held have a: "a \<in> in_flight st h"
    by (simp add: in_flight_def)
  then obtain v where v: "semaphores st h = Some v"
    using permits_balanced_None [OF inv, of h] by (cases "semaphores st h") auto
  note bal = permits_balanced_Some [OF inv v]
  have other: "a \<notin> in_flight st g" if "g \<noteq> h" for g
    using held that by (cases "phase st a") (auto simp: in_flight_def)
  have sem: "semaphores (sem_release h st) = (semaphores st)(h \<mapsto> Suc v)"
    using v by (simp add: sem_release_def)
  have down: "Suc (card (in_flight st h - {a})) = card (in_flight st h)"
    using in_flight_finite [OF fin] a by (rule card_Suc_Diff1)
  show "finite {x. phase (set_phase a ph (sem_release h st)) x \<noteq> Idle}"
    using busy_set_phase [of "sem_release h st" a ph] fin by simp
  show "in_flight (set_phase a ph (sem_release h st)) g = {}"
    if "semaphores (set_phase a ph (sem_release h st)) g = None" for g
    using that permits_balanced_None [OF inv, of g]
    by (cases "g = h") (simp_all add: sem in_flight_set_phase ph)
  show "w + card (in_flight (set_phase a ph (sem_release h st)) g) = length (ports cfg)"
    if "semaphores (set_phase a ph (sem_release h st)) g = Some w" for g w
  proof (cases "g = h")
    case True
    with that have "w = Suc v" by (simp add: sem)
    with bal down show ?thesis
      unfolding True by (simp add: in_flight_set_phase ph)
  next
    case False
    with that have "semaphores st g = Some w" by (simp add: sem)
    from permits_balanced_Some [OF inv this] other [OF False] show ?thesis
      by (simp add: in_flight_set_phase ph)
  qed
qed

lemma step_permits_balanced:
  assumes inv: "permits_balanced cfg st" and "step cfg st e = Some st'"
  shows "permits_balanced cfg st'"
proof (cases e)
  case (Tick d)
  with assms show ?thesis by (auto simp: permits_balanced_def)
next
  case (Start a h)
  with assms have ph: "phase st a = Idle"
    and st': "st' = set_phase a (AwaitPermit h) (semaphore_for cfg h st)"
    by (auto split: phase.splits)
  note fin = permits_balanced_busy [OF inv]
  have keep: "in_flight st' g = in_flight st g" for g
    unfolding st' using ph by (auto simp: in_flight_def)
  show ?thesis
  proof (rule permits_balancedI)
    show "finite {x. phase st' x \<noteq> Idle}"
      unfolding st' using busy_set_phase [of "semaphore_for cfg h st" a] fin by simp
    show "in_flight st' g = {}" if "semaphores st' g = None" for g
      using that permits_balanced_None [OF inv, of g] unfolding keep
      by (auto simp: st' semaphore_for_def split: option.splits if_splits)
    show "w + card (in_flight st' g) = length (ports cfg)" if "semaphores st' g = Some w" for g w
      using that permits_balanced_None [OF inv, of g] permits_balanced_Some [OF inv, of g] unfolding keep
      by (auto simp: st' semaphore_for_def split: option.splits if_splits)
  qed
next
  case (Acquire a)
  with assms obtain h v where ph: "phase st a = AwaitPermit h" and sem: "semaphores st h = Some (Suc v)"
    and st': "st' = set_phase a (Scanning h) (st\<lparr>semaphores := (semaphores st)(h \<mapsto> v)\<rparr>)"
    by (auto split: phase.splits option.splits nat.splits)
  note fin = permits_balanced_busy [OF inv]
  have a: "a \<notin> in_flight st g" for g
    using ph by (simp add: in_flight_def)
  show ?thesis
  proof (rule permits_balancedI)
    show "finite {x. phase st' x \<noteq> Idle}"
      unfolding st' using busy_set_phase [of "st\<lparr>semaphores := (semaphores st)(h \<mapsto> v)\<rparr>" a] fin by simp
    show "in_flight st' g = {}" if "semaphores st' g = None" for g
      using that permits_balanced_None [OF inv, of g] a [of g]
      by (cases "g = h") (simp_all add: st' in_flight_set_phase)
    show "w + card (in_flight st' g) = length (ports cfg)" if "semaphores st' g = Some w" for g w
    proof (cases "g = h")
      case True
      with that have "w = v" by (simp add: st')
      with permits_balanced_Some [OF inv sem] a [of h] in_flight_finite [OF fin, of h] show ?thesis
        unfolding True by (simp add: st' in_flight_set_phase)
    next
      case False
      with that have "semaphores st g = Some w" by (simp add: st')
      from permits_balanced_Some [OF inv this] a [of g] False show ?thesis
        by (simp add: st' in_flight_set_phase)
    qed
  qed
next
  case (Claim a p)
  with assms obtain h where ph: "phase st a = Scanning h"
    and st': "st' = set_phase a (Running h p) (st\<lparr>hostnames := (hostnames st)(p := insert h (hostnames st p))\<rparr>)"
    by (auto split: phase.splits if_splits)
  show ?thesis
    by (rule permits_balanced_phase_keep [OF inv, where a = a and ph = "Running h p"])
       (simp_all add: ph st')
next
  case (AbortScan a)
  with assms obtain h where ph: "phase st a = Scanning h"
    and st': "st' = set_phase a (Aborted h) (sem_release h st)"
    by (auto split: phase.splits)
  show ?thesis
    unfolding st' by (rule permits_balanced_give_back [OF inv]) (simp_all add: ph)
next
  case (Settle a s)
  with assms obtain h p where ph: "phase st a = Running h p"
    and st': "st' = set_phase a (Cooling h p (clock st) s) st"
    by (auto split: phase.splits)
  show ?thesis
    by (rule permits_balanced_phase_keep [OF inv, where a = a and ph = "Cooling h p (clock st) s"])
       (simp_all add: ph st')
next
  case (Unclaim a)
  with assms obtain h p t s where ph: "phase st a = Cooling h p t s"
    and st': "st' = set_phase a (Unclaimed h p t s (clock st))
                  (st\<lparr>hostnames := (hostnames st)(p := hostnames st p - {h})\<rparr>)"
    by (auto split: phase.splits if_splits)
  show ?thesis
    by (rule permits_balanced_phase_keep [OF inv, where a = a and ph = "Unclaimed h p t s (clock st)"])
       (simp_all add: ph st')
next
  case (Release a)
  with assms obtain h p t s td where ph: "phase st a = Unclaimed h p t s td"
    and st': "st' = set_phase a (Released h p t s td (clock st)) (sem_release h st)"
    by (auto split: phase.splits)
  show ?thesis
    unfolding st' by (rule permits_balanced_give_back [OF inv]) (simp_all add: ph)
next
  case (ChainFail a)
  with assms obtain h p t s where ph: "phase st a = Cooling h p t s"
    and st': "st' = set_phase a (Leaked h p t s) (st\<lparr>logged := logged st @ [a]\<rparr>)"
    by (auto split: phase.splits)
  show ?thesis
    by (rule permits_balanced_phase_keep [OF inv, where a = a and ph = "Leaked h p t s"])
       (simp_all add: ph st')
qed


lemma timely_init: "timely cfg init"
  by (simp add: timely_def init_def)

lemma step_timely:
  assumes inv: "timely cfg st" and "step cfg st e = Some st'"
  shows "timely cfg st'"
proof (cases e)
  case (Tick d)
  with assms show ?thesis by (fastforce simp: timely_def)
next
  case (Start a h)
  with assms show ?thesis
    by (auto simp: timely_def split: phase.splits if_splits)
next
  case (Acquire a)
  with assms show ?thesis
    by (auto simp: timely_def split: phase.splits if_splits option.splits nat.splits)
next
  case (Claim a p)
  with assms show ?thesis
    by (auto simp: timely_def split: phase.splits if_splits)
next
  case (AbortScan a)
  with assms show ?thesis
    by (auto simp: timely_def split: phase.splits if_splits)
next
  case (Settle a s)
  with assms show ?thesis
    by (auto simp: timely_def split: phase.splits if_splits)
next
  case (Unclaim a)
  with assms show ?thesis
    by (auto simp: timely_def sleep_elapsed_def split: phase.splits if_splits)
next
  case (Release a)
  with assms show ?thesis
    by (auto simp: timely_def split: phase.splits if_splits)
next
  case (ChainFail a)
  with assms show ?thesis
    by (auto simp: timely_def split: phase.splits if_splits)
qed

lemma run_timely:
  "timely cfg st \<Longrightarrow> run cfg st es = Some st' \<Longrightarrow> timely cfg st'"
  by (induction es arbitrary: st) (auto split: option.splits dest: step_timely)

lemma claims_exclusive_member:
  "claims_exclusive st \<Longrightarrow> holds_claim p h (phase st a) \<Longrightarrow> h \<in> hostnames st p"
  unfolding claims_exclusive_def by blast

lemma claim_kept_during_delay:
  assumes ex: "claims_exclusive st" and ti: "timely cfg st"
    and se: "settled (phase st a) = Some (h, p, t, s)"
    and early: "clock st < t + release_delay cfg s"
  shows "h \<in> hostnames st p \<and> a \<in> in_flight st h"
proof (cases "phase st a")
  case (Cooling h' p' t' s')
  with se have "holds_claim p h (phase st a)" "holds_permit h (phase st a)"
    by simp_all
  with ex show ?thesis
    by (simp add: claims_exclusive_member in_flight_def)
next
  case (Leaked h' p' t' s')
  with se have "holds_claim p h (phase st a)" "holds_permit h (phase st a)"
    by simp_all
  with ex show ?thesis
    by (simp add: claims_exclusive_member in_flight_def)
next
  case (Unclaimed h' p' t' s' td)
  with se ti early show ?thesis
    by (fastforce simp: timely_def)
next
  case (Released h' p' t' s' td tr)
  with se ti early show ?thesis
    by (fastforce simp: timely_def)
qed (use se in simp_all)

subsection \<open>The claims on the pool\<close>

lemma run2_runs: "run cfg2 init run2 = Some (the (run cfg2 init run2))"
  by (simp add: cfg2_def run2_def init_def set_phase_def semaphore_for_def sem_release_def
      release_delay_def sleep_elapsed_def)

lemma run2_phases:
  "phase (the (run cfg2 init run2)) 0 = Released ''a.example'' 1 0 True 500 500"
  "phase (the (run cfg2 init run2)) 1 = Cooling ''a.example'' 0 500 False"
  "phase (the (run cfg2 init run2)) (Suc 0) = Cooling ''a.example'' 0 500 False"
  by (simp_all add: cfg2_def run2_def init_def set_phase_def semaphore_for_def sem_release_def
      release_delay_def sleep_elapsed_def)

text \<open>
  Claim C2. In every state the program reaches, a (port, hostname) pair is claimed by at
  most one attempt; and \<open>getAvailablePort\<close> returns a port only through the callback that
  finds the hostname absent from the port's set and adds it in the same atomic move.
\<close>

theorem port_hostname_claimed_once:
  assumes "run cfg init es = Some st"
  shows "(\<forall>a b p h. holds_claim p h (phase st a) \<longrightarrow> holds_claim p h (phase st b) \<longrightarrow> a = b) \<and>
         (\<forall>a ps p st'. scan_ports cfg a ps st = Some (p, st') \<longrightarrow>
            (\<exists>h. phase st a = Scanning h \<and> h \<notin> hostnames st p \<and>
                  hostnames st' p = insert h (hostnames st p) \<and> phase st' a = Running h p))"
proof (intro conjI allI impI)
  from run_claims_exclusive [OF claims_exclusive_init assms]
  have ex: "claims_exclusive st" .
  fix a b p h
  assume "holds_claim p h (phase st a)" and "holds_claim p h (phase st b)"
  with ex show "a = b"
    unfolding claims_exclusive_def by blast
next
  fix a ps p st'
  assume "scan_ports cfg a ps st = Some (p, st')"
  then have "step cfg st (Claim a p) = Some st'"
    using scan_ports_claims by blast
  then show "\<exists>h. phase st a = Scanning h \<and> h \<notin> hostnames st p \<and>
                  hostnames st' p = insert h (hostnames st p) \<and> phase st' a = Running h p"
    by (auto split: phase.splits if_splits)
qed

theorem port_hostname_claimed_once_witness:
  "run cfg2 init run2 = Some (the (run cfg2 init run2)) \<and>
   holds_claim 0 ''a.example'' (phase (the (run cfg2 init run2)) 1) \<and>
   \<not> holds_claim 0 ''a.example'' (phase (the (run cfg2 init run2)) 0)"
  using port_hostname_claimed_once [OF run2_runs] run2_runs run2_phases by simp



text \<open>
  Claim C5. In every state the program reaches: an attempt whose outcome was known at
  time \<open>t\<close> keeps its claim in the port's set and its permit at every time before
  \<open>t + sameHostnameSuccessDelay\<close> when the outcome was a success and before
  \<open>t + sameHostnameErrorDelay\<close> when it was a failure; the deferred callback that deletes
  the claim can run from exactly that time on, so the claim is deleted, and after it the
  permit released, at no earlier time; scheduling the release is a move that is always
  possible when the outcome is known and takes no time; and a failure of the deferred
  chain is a move that only logs: it leaves the recorded outcome, the clock and every
  other attempt as they are.
\<close>

theorem release_not_before_delay:
  assumes "run cfg init es = Some st"
  shows "(\<forall>a h p t. settled (phase st a) = Some (h, p, t, True) \<longrightarrow>
            clock st < t + sameHostnameSuccessDelay cfg \<longrightarrow> h \<in> hostnames st p \<and> a \<in> in_flight st h) \<and>
         (\<forall>a h p t. settled (phase st a) = Some (h, p, t, False) \<longrightarrow>
            clock st < t + sameHostnameErrorDelay cfg \<longrightarrow> h \<in> hostnames st p \<and> a \<in> in_flight st h) \<and>
         (\<forall>a h p t. phase st a = Cooling h p t True \<longrightarrow>
            (step cfg st (Unclaim a) \<noteq> None) = (t + sameHostnameSuccessDelay cfg \<le> clock st)) \<and>
         (\<forall>a h p t. phase st a = Cooling h p t False \<longrightarrow>
            (step cfg st (Unclaim a) \<noteq> None) = (t + sameHostnameErrorDelay cfg \<le> clock st)) \<and>
         (\<forall>a h p t td. phase st a = Unclaimed h p t True td \<longrightarrow>
            t + sameHostnameSuccessDelay cfg \<le> td) \<and>
         (\<forall>a h p t td. phase st a = Unclaimed h p t False td \<longrightarrow>
            t + sameHostnameErrorDelay cfg \<le> td) \<and>
         (\<forall>a h p t td tr. phase st a = Released h p t True td tr \<longrightarrow>
            t + sameHostnameSuccessDelay cfg \<le> td \<and> td \<le> tr) \<and>
         (\<forall>a h p t td tr. phase st a = Released h p t False td tr \<longrightarrow>
            t + sameHostnameErrorDelay cfg \<le> td \<and> td \<le> tr) \<and>
         (\<forall>a h p ok. phase st a = Running h p \<longrightarrow>
            step cfg st (Settle a ok) = Some (set_phase a (Cooling h p (clock st) ok) st)) \<and>
         (\<forall>a h p t ok. phase st a = Cooling h p t ok \<longrightarrow>
            step cfg st (ChainFail a) =
              Some (set_phase a (Leaked h p t ok) (st\<lparr>logged := logged st @ [a]\<rparr>)))"
proof -
  from run_claims_exclusive [OF claims_exclusive_init assms]
  have ex: "claims_exclusive st" .
  from run_timely [OF timely_init assms]
  have ti: "timely cfg st" .
  have d: "release_delay cfg True = sameHostnameSuccessDelay cfg"
    "release_delay cfg False = sameHostnameErrorDelay cfg"
    by (simp_all add: release_delay_def)
  have kept: "h \<in> hostnames st p \<and> a \<in> in_flight st h"
    if "settled (phase st a) = Some (h, p, t, ok)" "clock st < t + release_delay cfg ok"
    for a h p t ok
    using ex ti that by (rule claim_kept_during_delay)
  have k1: "h \<in> hostnames st p \<and> a \<in> in_flight st h"
    if "settled (phase st a) = Some (h, p, t, True)" "clock st < t + sameHostnameSuccessDelay cfg"
    for a h p t
    using kept [of a h p t True] that d by simp
  have k2: "h \<in> hostnames st p \<and> a \<in> in_flight st h"
    if "settled (phase st a) = Some (h, p, t, False)" "clock st < t + sameHostnameErrorDelay cfg"
    for a h p t
    using kept [of a h p t False] that d by simp
  have g1: "(step cfg st (Unclaim a) \<noteq> None) = (t + sameHostnameSuccessDelay cfg \<le> clock st)"
    if "phase st a = Cooling h p t True" for a h p t
    using that by (simp add: sleep_elapsed_def release_delay_def)
  have g2: "(step cfg st (Unclaim a) \<noteq> None) = (t + sameHostnameErrorDelay cfg \<le> clock st)"
    if "phase st a = Cooling h p t False" for a h p t
    using that by (simp add: sleep_elapsed_def release_delay_def)
  have un: "t + release_delay cfg ok \<le> td" if "phase st a = Unclaimed h p t ok td" for a h p t ok td
    using ti that unfolding timely_def by blast
  have u1: "t + sameHostnameSuccessDelay cfg \<le> td" if "phase st a = Unclaimed h p t True td" for a h p t td
    using un [OF that] d by simp
  have u2: "t + sameHostnameErrorDelay cfg \<le> td" if "phase st a = Unclaimed h p t False td" for a h p t td
    using un [OF that] d by simp
  have re: "t + release_delay cfg ok \<le> td \<and> td \<le> tr"
    if "phase st a = Released h p t ok td tr" for a h p t ok td tr
    using ti that unfolding timely_def by blast
  have r1: "t + sameHostnameSuccessDelay cfg \<le> td \<and> td \<le> tr"
    if "phase st a = Released h p t True td tr" for a h p t td tr
    using re [OF that] d by simp
  have r2: "t + sameHostnameErrorDelay cfg \<le> td \<and> td \<le> tr"
    if "phase st a = Released h p t False td tr" for a h p t td tr
    using re [OF that] d by simp
  have se: "step cfg st (Settle a ok) = Some (set_phase a (Cooling h p (clock st) ok) st)"
    if "phase st a = Running h p" for a h p ok
    using that by simp
  have fa: "step cfg st (ChainFail a) = Some (set_phase a (Leaked h p t ok) (st\<lparr>logged := logged st @ [a]\<rparr>))"
    if "phase st a = Cooling h p t ok" for a h p t ok
    using that by simp
  have c1: "\<forall>a h p t. settled (phase st a) = Some (h, p, t, True) \<longrightarrow>
            clock st < t + sameHostnameSuccessDelay cfg \<longrightarrow> h \<in> hostnames st p \<and> a \<in> in_flight st h"
    using k1 by blast
  have c2: "\<forall>a h p t. settled (phase st a) = Some (h, p, t, False) \<longrightarrow>
            clock st < t + sameHostnameErrorDelay cfg \<longrightarrow> h \<in> hostnames st p \<and> a \<in> in_flight st h"
    using k2 by blast
  have c3: "\<forall>a h p t. phase st a = Cooling h p t True \<longrightarrow>
            (step cfg st (Unclaim a) \<noteq> None) = (t + sameHostnameSuccessDelay cfg \<le> clock st)"
    using g1 by blast
  have c4: "\<forall>a h p t. phase st a = Cooling h p t False \<longrightarrow>
            (step cfg st (Unclaim a) \<noteq> None) = (t + sameHostnameErrorDelay cfg \<le> clock st)"
    using g2 by blast
  have c5: "\<forall>a h p t td. phase st a = Unclaimed h p t True td \<longrightarrow>
            t + sameHostnameSuccessDelay cfg \<le> td"
    using u1 by blast
  have c6: "\<forall>a h p t td. phase st a = Unclaimed h p t False td \<longrightarrow>
            t + sameHostnameErrorDelay cfg \<le> td"
    using u2 by blast
  have c7: "\<forall>a h p t td tr. phase st a = Released h p t True td tr \<longrightarrow>
            t + sameHostnameSuccessDelay cfg \<le> td \<and> td \<le> tr"
    using r1 by blast
  have c8: "\<forall>a h p t td tr. phase st a = Released h p t False td tr \<longrightarrow>
            t + sameHostnameErrorDelay cfg \<le> td \<and> td \<le> tr"
    using r2 by blast
  have c9: "\<forall>a h p ok. phase st a = Running h p \<longrightarrow>
            step cfg st (Settle a ok) = Some (set_phase a (Cooling h p (clock st) ok) st)"
    using se by blast
  have c10: "\<forall>a h p t ok. phase st a = Cooling h p t ok \<longrightarrow>
            step cfg st (ChainFail a) =
              Some (set_phase a (Leaked h p t ok) (st\<lparr>logged := logged st @ [a]\<rparr>))"
    using fa by blast
  from c1 c2 c3 c4 c5 c6 c7 c8 c9 c10 show ?thesis
    by (intro conjI)
qed

theorem release_not_before_delay_witness:
  "run cfg2 init run2 = Some (the (run cfg2 init run2)) \<and>
   phase (the (run cfg2 init run2)) 0 = Released ''a.example'' 1 0 True 500 500 \<and>
   0 + sameHostnameSuccessDelay cfg2 \<le> 500 \<and>
   phase (the (run cfg2 init run2)) 1 = Cooling ''a.example'' 0 500 False \<and>
   clock (the (run cfg2 init run2)) < 500 + sameHostnameErrorDelay cfg2 \<and>
   ''a.example'' \<in> hostnames (the (run cfg2 init run2)) 0 \<and>
   step cfg2 (the (run cfg2 init run2)) (Unclaim 1) = None"
proof -
  let ?st = "the (run cfg2 init run2)"
  note delay = release_not_before_delay [OF run2_runs]
  have c: "clock ?st = 500"
    by (simp add: cfg2_def run2_def init_def set_phase_def semaphore_for_def sem_release_def
        release_delay_def sleep_elapsed_def)
  have d: "sameHostnameErrorDelay cfg2 = 2000" "sameHostnameSuccessDelay cfg2 = 500"
    by (simp_all add: cfg2_def)
  have s: "settled (phase ?st 1) = Some (''a.example'', 0, 500, False)"
    by (simp add: run2_phases)
  have l: "clock ?st < 500 + sameHostnameErrorDelay cfg2"
    by (simp add: c d)
  from delay have "\<forall>a h p t. settled (phase ?st a) = Some (h, p, t, False) \<longrightarrow>
      clock ?st < t + sameHostnameErrorDelay cfg2 \<longrightarrow> h \<in> hostnames ?st p \<and> a \<in> in_flight ?st h"
    by (elim conjE)
  with s l have m: "''a.example'' \<in> hostnames ?st 0"
    by blast
  from delay have "\<forall>a h p t td tr. phase ?st a = Released h p t True td tr \<longrightarrow>
      t + sameHostnameSuccessDelay cfg2 \<le> td \<and> td \<le> tr"
    by (elim conjE)
  with run2_phases(1) have e: "0 + sameHostnameSuccessDelay cfg2 \<le> 500"
    by blast
  from delay have "\<forall>a h p t. phase ?st a = Cooling h p t False \<longrightarrow>
      (step cfg2 ?st (Unclaim a) \<noteq> None) = (t + sameHostnameErrorDelay cfg2 \<le> clock ?st)"
    by (elim conjE)
  with run2_phases(2) have "(step cfg2 ?st (Unclaim 1) \<noteq> None) = (500 + sameHostnameErrorDelay cfg2 \<le> clock ?st)"
    by blast
  with l have n: "step cfg2 ?st (Unclaim 1) = None"
    by simp
  from run2_runs run2_phases(1) e run2_phases(2) l m n show ?thesis
    by (intro conjI)
qed

section \<open>One fetch call\<close>

text \<open>
  \<open>fetch(url, options, tries = 0)\<close> of the legacy scheduler (\<^verbatim>\<open>src/lib/ProxyLegacy.ts\<close>) and
  of the axios scheduler (\<^verbatim>\<open>src/lib/ProxyAxios.ts\<close>), and the rendering attempts of the
  no-stealth and Playwright schedulers, as functions on the pool of the previous section.
  The call may start in any state of the pool, with the attempts of earlier and of
  concurrent calls in whatever phase they are. What the network, the rendering engine,
  \<open>Math.random\<close> and the header generator answer, and what the other calls do while this
  one is suspended, is the environment \<open>env\<close>, indexed by the attempt number (the value of
  \<open>tries\<close>) and the port index.

  Of a \<open>URL\<close> the code reads \<open>href\<close> and \<open>hostname\<close>. A response keeps \<open>ok\<close>, \<open>status\<close> and
  what \<open>text()\<close> resolves to (\<open>None\<close> when reading the body rejects).
\<close>

record url =
  href :: string
  hostname :: string

datatype http_method = GET | POST

record response =
  ok :: bool
  status :: nat
  body_text :: "string option"

text \<open>
  The errors a call can end with. \<open>MaxTriesExceeded\<close> is
  \<^verbatim>\<open>new Error(`MAX TRIES ${url.href} ${new Date().toLocaleTimeString()}`)\<close>; the time of day
  is the clock of the model. \<open>NoValidResponses\<close> is
  \<^verbatim>\<open>new Error("No valid responses from any port")\<close>. \<open>RequestFailed\<close> is the error of the
  axios scheduler,
  \<^verbatim>\<open>new Error(`Request to ${url.href} failed with status ${error.response?.status || "Unknown"}: ${error.message}`)\<close>;
  its status is \<open>None\<close> where the message says \<open>Unknown\<close>. \<open>BackendError\<close> is whatever a
  network or page operation throws. A payload is the text of a rendered page, a response,
  or \<open>Missing\<close>: the value \<open>undefined\<close> that reading an array past its end gives.
\<close>

datatype js_err =
    MaxTriesExceeded string nat
  | NoValidResponses
  | RequestFailed string "nat option" string
  | BackendError string

datatype payload = Text string | Resp response | Missing

datatype options = Browser "bool option" | Http http_method "headers field" "string field"

datatype http_result = Throws string | Responds response

datatype axios_result = AxiosError string "nat option" | AxiosData string

text \<open>
  The trace of a call: \<open>Attempt k p\<close> marks that attempt \<open>k\<close> entered its \<open>try\<close> block on
  port \<open>p\<close>; \<open>Sent k q href m headers body\<close> is a request of attempt \<open>k\<close> through port \<open>q\<close>;
  \<open>Op k p op\<close> is a call of attempt \<open>k\<close> on the rendering engine of port \<open>p\<close> (\<open>NewPage\<close> on
  the session, the page operations on the page that \<open>NewPage\<close> returned).
\<close>

datatype browser_op =
    Launch | NewContext | Route | NewPage | Authenticate | SetRequestInterception
  | Goto bool | Content | ClosePage | CloseContext | CloseBrowser

datatype effect =
    Attempt nat nat
  | Sent nat nat string http_method "headers option" "string field"
  | Op nat nat browser_op

text \<open>
  What the operations on a page answer: \<open>Some e\<close> is a rejection with error \<open>e\<close>.
  \<open>browser env p\<close> is the outcome of the promise \<open>port.browser\<close> made by
  \<open>puppeteer.launch\<close> in the constructor. \<open>draws env k i\<close> is the index drawn at loop index
  \<open>i\<close> of the shuffle of attempt \<open>k\<close>; \<open>pick env k\<close> is the value of \<open>Math.random()\<close>
  that chooses among the broadcast responses, a real number (the language promises it in
  \<open>[0, 1)\<close>); \<open>getHeaders env k n\<close> is the \<open>n\<close>-th header set generated in attempt \<open>k\<close>,
  and \<open>elapsed env k\<close> the time the network or page work of attempt \<open>k\<close> takes.

  The call is suspended at its \<open>await\<close>s: while it waits for its permit (\<open>Permit i\<close>, the
  \<open>i\<close>-th time it is passed over), between two passes over the ports (\<open>Port j\<close>, the
  \<open>sleep(50)\<close> after pass \<open>j\<close>), while its backend works (\<open>Backend\<close>) and, in the axios
  scheduler, before a retry (\<open>Backoff\<close>). \<open>others env k pt\<close> are the moves that the
  other calls make while attempt \<open>k\<close> is suspended at \<open>pt\<close>.
\<close>

record page_run =
  newPage :: "string option"
  authenticate :: "string option"
  setRequestInterception :: "string option"
  goto :: "string option"
  content :: "string + string"
  close :: "string option"

datatype await = Permit nat | Port nat | Backend | Backoff

record env =
  draws :: "nat \<Rightarrow> nat \<Rightarrow> nat"
  getHeaders :: "nat \<Rightarrow> nat \<Rightarrow> headers"
  http :: "nat \<Rightarrow> nat \<Rightarrow> http_result"
  broadcast :: "nat \<Rightarrow> nat \<Rightarrow> http_result"
  pick :: "nat \<Rightarrow> real"
  browser :: "nat \<Rightarrow> string option"
  page :: "nat \<Rightarrow> nat \<Rightarrow> page_run"
  axios :: "nat \<Rightarrow> nat \<Rightarrow> axios_result"
  elapsed :: "nat \<Rightarrow> nat"
  others :: "nat \<Rightarrow> await \<Rightarrow> event list"

record world =
  sched :: pool
  trace :: "effect list"

text \<open>
  The attempts in the pool are named by numbers; the names are labels of the model, the
  code has none. A call is given a name \<open>base\<close> from which on no name is in use (there
  is one in every state the pool reaches, \<open>sound_unused\<close>), and its attempt at
  \<open>tries = k\<close> is named \<open>base + k\<close>. The names below \<open>base\<close> are those of the other calls:
  \<open>meanwhile\<close> lets their moves happen, one after the other; a move that the pool does
  not allow in the state it meets, or that names an attempt of this call, does not
  happen.
\<close>

fun actor :: "event \<Rightarrow> nat option" where
  "actor (Tick d) = None"
| "actor (Start a h) = Some a"
| "actor (Acquire a) = Some a"
| "actor (Claim a p) = Some a"
| "actor (AbortScan a) = Some a"
| "actor (Settle a s) = Some a"
| "actor (Unclaim a) = Some a"
| "actor (Release a) = Some a"
| "actor (ChainFail a) = Some a"

definition foreign :: "nat \<Rightarrow> event \<Rightarrow> bool" where
  "foreign base e \<longleftrightarrow> (case actor e of None \<Rightarrow> True | Some a \<Rightarrow> a < base)"

definition occur :: "config \<Rightarrow> nat \<Rightarrow> event \<Rightarrow> pool \<Rightarrow> pool" where
  "occur cfg base e st =
     (if foreign base e then (case step cfg st e of None \<Rightarrow> st | Some st' \<Rightarrow> st') else st)"

definition meanwhile :: "config \<Rightarrow> nat \<Rightarrow> event list \<Rightarrow> pool \<Rightarrow> pool" where
  "meanwhile cfg base es st = fold (occur cfg base) es st"

text \<open>
  \<open>fire\<close> is the deferred chain of one \<open>waitAndRelease\<close>: delete the claim once the
  \<open>sleep\<close> has elapsed, then give the permit back (at once, where the claim is deleted
  already). While the call is suspended for \<open>d\<close> milliseconds the other calls move, the
  time passes, and the deferred chains that have fallen due run, those of this call's
  earlier attempts and those of the other calls.
\<close>

definition fire :: "config \<Rightarrow> nat \<Rightarrow> pool \<Rightarrow> pool" where
  "fire cfg a st =
     (let st1 = (case step cfg st (Unclaim a) of None \<Rightarrow> st | Some s \<Rightarrow> s)
      in case step cfg st1 (Release a) of None \<Rightarrow> st1 | Some s \<Rightarrow> s)"

definition fire_due :: "config \<Rightarrow> nat \<Rightarrow> pool \<Rightarrow> pool" where
  "fire_due cfg n st = fold (fire cfg) [0..<n] st"

definition suspend :: "config \<Rightarrow> env \<Rightarrow> nat \<Rightarrow> nat \<Rightarrow> await \<Rightarrow> nat \<Rightarrow> pool \<Rightarrow> pool" where
  "suspend cfg env base k pt d st =
     (let st1 = meanwhile cfg base (others env k pt) st
      in fire_due cfg (Suc (base + k)) (st1\<lparr>clock := clock st1 + d\<rparr>))"

text \<open>
  \<^verbatim>\<open>const [_value, release] = await semaphore.acquire();\<close> The permit is granted at
  once when one is left. Otherwise the call stays suspended: the other calls move, and
  the time passes until the next deferred release of a permit of this hostname falls
  due (no time, when none is pending), and the call tries again. Where no permit is
  ever left for it the call waits for ever: the value \<open>None\<close>.
\<close>

definition due :: "config \<Rightarrow> string \<Rightarrow> phase \<Rightarrow> nat option" where
  "due cfg h ph =
     (case ph of
        Cooling h' p t success \<Rightarrow> if h' = h then Some (t + release_delay cfg success) else None
      | Unclaimed h' p t success td \<Rightarrow> if h' = h then Some td else None
      | _ \<Rightarrow> None)"

definition next_release :: "config \<Rightarrow> nat \<Rightarrow> string \<Rightarrow> pool \<Rightarrow> nat option" where
  "next_release cfg n h st =
     (case List.map_filter (\<lambda>a. due cfg h (phase st a)) [0..<n] of
        [] \<Rightarrow> None
      | d # ds \<Rightarrow> Some (fold min ds d))"

definition wait_release :: "config \<Rightarrow> env \<Rightarrow> nat \<Rightarrow> nat \<Rightarrow> nat \<Rightarrow> string \<Rightarrow> pool \<Rightarrow> pool" where
  "wait_release cfg env base k i h st =
     (let st1 = meanwhile cfg base (others env k (Permit i)) st;
          d = (case next_release cfg (Suc (base + k)) h st1 of None \<Rightarrow> 0 | Some t \<Rightarrow> t - clock st1)
      in fire_due cfg (Suc (base + k)) (st1\<lparr>clock := clock st1 + d\<rparr>))"

partial_function (option) await_permit ::
  "config \<Rightarrow> env \<Rightarrow> nat \<Rightarrow> nat \<Rightarrow> nat \<Rightarrow> string \<Rightarrow> pool \<Rightarrow> pool option" where
  "await_permit cfg env base k i h st =
     (case step cfg st (Acquire (base + k)) of
        Some st' \<Rightarrow> Some st'
      | None \<Rightarrow> await_permit cfg env base k (Suc i) h (wait_release cfg env base k i h st))"

text \<open>
  \<^verbatim>\<open>
  private getAvailablePort = async (hostname: string) => {
    const shuffledPorts = this.shuffleArray([...this.ports]);
    while (true) {
      for (const port of shuffledPorts) { ... if (isAvailable) return port; }
      await sleep(50);
    }
  };
  \<close>
  The loop has no exit but the \<open>return\<close>: where no port ever becomes free the function
  does not return, which is the value \<open>None\<close>. One pass over the ports is one move
  (\<open>scan_ports\<close>); the other calls move during the \<open>sleep\<close> between two passes. The
  hostname is the one attempt \<open>base + k\<close> is scanning for. \<open>getAvailablePort\<close> throws nothing
  in this model, so the \<open>catch\<close> around its call in \<open>fetch\<close> (the move \<open>AbortScan\<close> of the
  pool) is not taken by this call.
\<close>

partial_function (option) getAvailablePort ::
  "config \<Rightarrow> env \<Rightarrow> nat \<Rightarrow> nat \<Rightarrow> nat \<Rightarrow> nat list \<Rightarrow> pool \<Rightarrow> (nat \<times> pool) option" where
  "getAvailablePort cfg env base k j shuffledPorts st =
     (case scan_ports cfg (base + k) shuffledPorts st of
        Some r \<Rightarrow> Some r
      | None \<Rightarrow> getAvailablePort cfg env base k (Suc j) shuffledPorts
                  (suspend cfg env base k (Port j) 50 st))"

definition acquire_port ::
  "config \<Rightarrow> env \<Rightarrow> nat \<Rightarrow> nat \<Rightarrow> string \<Rightarrow> pool \<Rightarrow> (nat \<times> pool) option" where
  "acquire_port cfg env base k h st =
     (case step cfg st (Start (base + k) h) of
        None \<Rightarrow> None
      | Some st1 \<Rightarrow>
          (case await_permit cfg env base k 0 h st1 of
             None \<Rightarrow> None
           | Some st2 \<Rightarrow>
               getAvailablePort cfg env base k 0
                 (shuffleArray (draws env k) [0..<length (ports cfg)]) st2))"

text \<open>
  The outcome of attempt \<open>k\<close> is known \<open>dt\<close> milliseconds after its port was claimed, and
  \<open>waitAndRelease(success)\<close> is called there.
\<close>

definition settle :: "config \<Rightarrow> env \<Rightarrow> nat \<Rightarrow> nat \<Rightarrow> nat \<Rightarrow> bool \<Rightarrow> pool \<Rightarrow> pool option" where
  "settle cfg env base k dt success st =
     step cfg (suspend cfg env base k Backend dt st) (Settle (base + k) success)"

text \<open>
  The rendering branch of the legacy scheduler:
  \<^verbatim>\<open>
  const browser = await port.browser;
  const page = await browser.newPage();
  try {
    await page.authenticate(this.credentials);
    const response = await page.goto(url.href, {
      waitUntil: options.waitForNetworkIdle ? "networkidle0" : "domcontentloaded", timeout: 60000 });
    const text = await page.content();
    waitAndRelease();
    return text as never;
  } finally {
    page.close().catch(console.error);
  }
  \<close>
  and its plain branch with the broadcast fallback:
  \<^verbatim>\<open>
  const response = await fetch(url.href, { method: options.method, headers: ..., body: ..., dispatcher: port.agent });
  if (!response.ok) {
    if ((await response.text()) === "Error updating item info: Could not find product") {
      const validResponse = await sendRequestsToAllPorts();
      waitAndRelease();
      return validResponse as never;
    }
  }
  waitAndRelease();
  return response as never;
  \<close>
  \<^verbatim>\<open>
  const sendRequestsToAllPorts = async (): Promise<Response> => {
    const responses = await Promise.all(this.ports.map(async (port) => {
      try {
        const response = await fetch(url.href, { ..., dispatcher: port.agent });
        if (response.ok) { return response; }
      } catch (error) { console.error(...); }
      return null;
    }));
    await sleep(10000); // Wait for 10 seconds
    const validResponses = responses.filter((response) => response !== null);
    if (validResponses.length === 0) { throw new Error("No valid responses from any port"); }
    return validResponses[Math.floor(Math.random() * validResponses.length)]!;
  };
  \<close>
  Each backend function returns the outcome of the \<open>try\<close> block and the calls it made;
  \<open>legacy_http\<close> also returns the time its \<open>sleep\<close> adds. \<open>draw_index r n\<close> is
  \<^verbatim>\<open>Math.floor(r * n)\<close> for a draw \<open>r\<close> of \<open>Math.random()\<close> (the rounding of the product is
  not modelled), and \<open>element\<close> reads an array, \<open>undefined\<close> past its end: the \<open>!\<close> of the
  source is erased at run time.
\<close>


definition sentinel :: string where
  "sentinel = ''Error updating item info: Could not find product''"

definition legacy_browser :: "env \<Rightarrow> bool option \<Rightarrow> nat \<Rightarrow> nat \<Rightarrow> (js_err + payload) \<times> effect list" where
  "legacy_browser env idle k p =
     (case browser env p of
        Some e \<Rightarrow> (Inl (BackendError e), [])
      | None \<Rightarrow>
     (case newPage (page env k p) of
        Some e \<Rightarrow> (Inl (BackendError e), [Op k p NewPage])
      | None \<Rightarrow>
     (case authenticate (page env k p) of
        Some e \<Rightarrow> (Inl (BackendError e), [Op k p NewPage, Op k p Authenticate, Op k p ClosePage])
      | None \<Rightarrow>
     (case goto (page env k p) of
        Some e \<Rightarrow> (Inl (BackendError e),
                   [Op k p NewPage, Op k p Authenticate, Op k p (Goto (idle = Some True)),
                    Op k p ClosePage])
      | None \<Rightarrow>
     (case content (page env k p) of
        Inl e \<Rightarrow> (Inl (BackendError e),
                  [Op k p NewPage, Op k p Authenticate, Op k p (Goto (idle = Some True)),
                   Op k p Content, Op k p ClosePage])
      | Inr html \<Rightarrow> (Inr (Text html),
                  [Op k p NewPage, Op k p Authenticate, Op k p (Goto (idle = Some True)),
                   Op k p Content, Op k p ClosePage]))))))"

definition draw_index :: "real \<Rightarrow> nat \<Rightarrow> nat" where
  "draw_index r n = nat \<lfloor>r * real n\<rfloor>"

definition element :: "response list \<Rightarrow> nat \<Rightarrow> payload" where
  "element rs i = (if i < length rs then Resp (rs ! i) else Missing)"

definition sendRequestsToAllPorts ::
  "config \<Rightarrow> env \<Rightarrow> url \<Rightarrow> http_method \<Rightarrow> headers field \<Rightarrow> string field \<Rightarrow> nat
     \<Rightarrow> (js_err + payload) \<times> effect list" where
  "sendRequestsToAllPorts cfg env u m hs b k =
     (let qs = [0..<length (ports cfg)];
          sent = map (\<lambda>q. Sent k q (href u) m (legacy_request_headers (getHeaders env k (Suc q)) hs) b) qs;
          responses = map (\<lambda>q. case broadcast env k q of
                                  Responds r \<Rightarrow> if ok r then Some r else None
                                | Throws e \<Rightarrow> None) qs;
          validResponses = List.map_filter id responses
      in (if length validResponses = 0 then Inl NoValidResponses
          else Inr (element validResponses (draw_index (pick env k) (length validResponses))), sent))"

definition legacy_http ::
  "config \<Rightarrow> env \<Rightarrow> url \<Rightarrow> http_method \<Rightarrow> headers field \<Rightarrow> string field \<Rightarrow> nat \<Rightarrow> nat
     \<Rightarrow> (js_err + payload) \<times> effect list \<times> nat" where
  "legacy_http cfg env u m hs b k p =
     (let request = Sent k p (href u) m (legacy_request_headers (getHeaders env k 0) hs) b
      in case http env k p of
           Throws e \<Rightarrow> (Inl (BackendError e), [request], 0)
         | Responds r \<Rightarrow>
             if \<not> ok r then
               (case body_text r of
                  None \<Rightarrow> (Inl (BackendError ''text''), [request], 0)
                | Some t \<Rightarrow>
                    if t = sentinel then
                      (case sendRequestsToAllPorts cfg env u m hs b k of
                         (res, sent) \<Rightarrow> (res, request # sent, 10000))
                    else (Inr (Resp r), [request], 0))
             else (Inr (Resp r), [request], 0))"

definition legacy_backend ::
  "config \<Rightarrow> env \<Rightarrow> url \<Rightarrow> options \<Rightarrow> nat \<Rightarrow> nat \<Rightarrow> (js_err + payload) \<times> effect list \<times> nat" where
  "legacy_backend cfg env u opts k p =
     (case opts of
        Browser idle \<Rightarrow> (case legacy_browser env idle k p of (r, ops) \<Rightarrow> (r, ops, 0))
      | Http m hs b \<Rightarrow> legacy_http cfg env u m hs b k p)"

text \<open>
  \<^verbatim>\<open>
  fetch = async (url, options, tries = 0) => {
    if (tries >= this.maxTries)
      throw new Error(`MAX TRIES ${url.href} ${new Date().toLocaleTimeString()}`);
    const semaphore = await this.semaphoresMutex.runExclusive(
      () => (this.semaphores[url.hostname] ??= new Semaphore(this.ports.length)));
    const [_value, release] = await semaphore.acquire();
    let port: ProxyPort;
    try { port = await this.getAvailablePort(url.hostname); } catch (error) { release(); throw error; }
    ...
    try {
      ... // the backend, then waitAndRelease() and return
    } catch (error) {
      ... // log
      waitAndRelease(false);
      return this.fetch(url, options, tries + 1);
    }
  };
  \<close>
  Every error of the \<open>try\<close> block, the one thrown by \<open>sendRequestsToAllPorts\<close> included,
  reaches this one \<open>catch\<close>. \<open>maxTries\<close> is an integer (\<open>parseInt\<close> of the environment;
  \<open>NaN\<close> is not modelled). \<open>base\<close> is the name of the call's first attempt. The result
  is \<open>None\<close> when the call never returns.
\<close>


function fetch_legacy ::
  "config \<Rightarrow> env \<Rightarrow> url \<Rightarrow> options \<Rightarrow> nat \<Rightarrow> nat \<Rightarrow> world \<Rightarrow> ((js_err + payload) \<times> world) option" where
  "fetch_legacy cfg env u opts base tries w =
     (if maxTries cfg \<le> int tries
      then Some (Inl (MaxTriesExceeded (href u) (clock (sched w))), w)
      else
        (case acquire_port cfg env base tries (hostname u) (sched w) of
           None \<Rightarrow> None
         | Some (p, st) \<Rightarrow>
             (case legacy_backend cfg env u opts tries p of
                (Inr v, effs, dt) \<Rightarrow>
                  (case settle cfg env base tries (elapsed env tries + dt) True st of
                     None \<Rightarrow> None
                   | Some st' \<Rightarrow>
                       Some (Inr v, \<lparr>sched = st', trace = trace w @ Attempt tries p # effs\<rparr>))
              | (Inl e, effs, dt) \<Rightarrow>
                  (case settle cfg env base tries (elapsed env tries + dt) False st of
                     None \<Rightarrow> None
                   | Some st' \<Rightarrow>
                       fetch_legacy cfg env u opts base (Suc tries)
                         \<lparr>sched = st', trace = trace w @ Attempt tries p # effs\<rparr>))))"
  by pat_completeness auto

termination
  by (relation "measure (\<lambda>(cfg, env, u, opts, base, tries, w). nat (maxTries cfg) - tries)") auto

declare fetch_legacy.simps [simp del]





text \<open>The attempts a call made, and the state a first call starts in.\<close>

definition attempts :: "effect list \<Rightarrow> nat" where
  "attempts tr = length (filter (\<lambda>e. case e of Attempt k p \<Rightarrow> True | _ \<Rightarrow> False) tr)"


text \<open>
  The invariants of the pool that a call relies on, and the conditions under which it
  goes on. In the pool every hostname in a port's set has an attempt that claimed it
  (\<open>claims_covered\<close>); \<open>sound\<close> collects the invariants. \<open>fired cfg now ph\<close> is the phase of
  an attempt once the deferred chains due at \<open>now\<close> have run. A move is \<open>gentle\<close> when
  it grants no permit and is no failure of a deferred chain, and the environment is
  \<open>calm\<close> when the other calls make only such moves while this one is suspended.
  \<open>unused n\<close>: no name from \<open>n\<close> on is in use. \<open>pending h\<close>: the attempt holds a permit
  of \<open>h\<close> that its deferred chain is still to give back. \<open>permit_left\<close>: a permit of the
  hostname can still be had, because the hostname is new and a port is configured,
  or a permit is free, or one is to be given back; \<open>can_get\<close> is the same, the attempt
  that gives it back named below \<open>n\<close>. \<open>ready\<close> is the state before an attempt,
  \<open>at_phase\<close> the state while attempt \<open>n\<close> is in phase \<open>ph\<close>.
\<close>

definition claims_covered :: "pool \<Rightarrow> bool" where
  "claims_covered st \<longleftrightarrow> (\<forall>p h. h \<in> hostnames st p \<longrightarrow> (\<exists>a. holds_claim p h (phase st a)))"

definition sound :: "config \<Rightarrow> pool \<Rightarrow> bool" where
  "sound cfg st \<longleftrightarrow> permits_balanced cfg st \<and> claims_exclusive st \<and> claims_covered st"

definition fired :: "config \<Rightarrow> nat \<Rightarrow> phase \<Rightarrow> phase" where
  "fired cfg now ph =
     (case ph of
        Cooling h p t s \<Rightarrow>
          if sleep_elapsed t (release_delay cfg s) now then Released h p t s now now else ph
      | Unclaimed h p t s td \<Rightarrow> Released h p t s td now
      | _ \<Rightarrow> ph)"

fun gentle :: "event \<Rightarrow> bool" where
  "gentle (Acquire a) = False"
| "gentle (ChainFail a) = False"
| "gentle _ = True"


definition preserved :: "config \<Rightarrow> (pool \<Rightarrow> bool) \<Rightarrow> bool" where
  "preserved cfg P \<longleftrightarrow> (\<forall>st e st'. gentle e \<longrightarrow> P st \<longrightarrow> step cfg st e = Some st' \<longrightarrow> P st')"

definition unused :: "nat \<Rightarrow> pool \<Rightarrow> bool" where
  "unused n st \<longleftrightarrow> (\<forall>a\<ge>n. phase st a = Idle)"

fun pending :: "string \<Rightarrow> phase \<Rightarrow> bool" where
  "pending h (Cooling h' p t s) = (h' = h)"
| "pending h (Unclaimed h' p t s td) = (h' = h)"
| "pending h _ = False"

fun resting :: "phase \<Rightarrow> bool" where
  "resting (Cooling h p t s) = False"
| "resting (Unclaimed h p t s td) = False"
| "resting _ = True"


definition can_get :: "config \<Rightarrow> nat \<Rightarrow> string \<Rightarrow> pool \<Rightarrow> bool" where
  "can_get cfg n h st \<longleftrightarrow>
     (semaphores st h = None \<and> ports cfg \<noteq> []) \<or>
     (\<exists>v. semaphores st h = Some (Suc v)) \<or>
     (\<exists>a<n. pending h (phase st a))"

definition ready :: "config \<Rightarrow> nat \<Rightarrow> string \<Rightarrow> pool \<Rightarrow> bool" where
  "ready cfg n h st \<longleftrightarrow> sound cfg st \<and> unused n st \<and> can_get cfg n h st"

definition at_phase :: "config \<Rightarrow> nat \<Rightarrow> phase \<Rightarrow> pool \<Rightarrow> bool" where
  "at_phase cfg n ph st \<longleftrightarrow> sound cfg st \<and> phase st n = ph \<and> unused (Suc n) st"



text \<open>
  The responses that survive the broadcast, in port order, and the reply that triggers
  it: not \<open>ok\<close>, with the sentinel text as body.
\<close>

definition survivors :: "config \<Rightarrow> env \<Rightarrow> nat \<Rightarrow> response list" where
  "survivors cfg env k =
     List.map_filter (\<lambda>q. case broadcast env k q of
                             Responds r \<Rightarrow> if ok r then Some r else None
                           | Throws e \<Rightarrow> None) [0..<length (ports cfg)]"


text \<open>
  The rendering branch of the no-stealth scheduler (\<^verbatim>\<open>src/unnamed/part_001\<close>, the
  variant on plain puppeteer):
  \<^verbatim>\<open>
  const browser = await port.browser;
  const page = await browser.newPage();
  await page.authenticate(this.credentials);
  await page.setRequestInterception(true);
  ... page.on("request", ...)
  try {
    await page.goto(url.href, { waitUntil: ..., timeout: 60000 });
    const text = await page.content();
    waitAndRelease();
    await page.close();
    return text as never;
  } catch (e) {
    console.error(...);
    await page.close(); // Close on error
    throw e;
  }
  \<close>
  \<open>authenticate\<close> and \<open>setRequestInterception\<close> stand before the \<open>try\<close>. A \<open>close\<close> that
  rejects in the \<open>try\<close> block is followed by the \<open>close\<close> of the \<open>catch\<close> block.
\<close>

definition nostealth_browser :: "env \<Rightarrow> bool option \<Rightarrow> nat \<Rightarrow> nat \<Rightarrow> (js_err + payload) \<times> effect list" where
  "nostealth_browser env idle k p =
     (case browser env p of
        Some e \<Rightarrow> (Inl (BackendError e), [])
      | None \<Rightarrow>
     (case newPage (page env k p) of
        Some e \<Rightarrow> (Inl (BackendError e), [Op k p NewPage])
      | None \<Rightarrow>
     (case authenticate (page env k p) of
        Some e \<Rightarrow> (Inl (BackendError e), [Op k p NewPage, Op k p Authenticate])
      | None \<Rightarrow>
     (case setRequestInterception (page env k p) of
        Some e \<Rightarrow> (Inl (BackendError e),
                   [Op k p NewPage, Op k p Authenticate, Op k p SetRequestInterception])
      | None \<Rightarrow>
     (let setup = [Op k p NewPage, Op k p Authenticate, Op k p SetRequestInterception,
                   Op k p (Goto (idle = Some True))]
      in case goto (page env k p) of
        Some e \<Rightarrow> (Inl (BackendError (case close (page env k p) of None \<Rightarrow> e | Some c \<Rightarrow> c)),
                   setup @ [Op k p ClosePage])
      | None \<Rightarrow>
     (case content (page env k p) of
        Inl e \<Rightarrow> (Inl (BackendError (case close (page env k p) of None \<Rightarrow> e | Some c \<Rightarrow> c)),
                  setup @ [Op k p Content, Op k p ClosePage])
      | Inr html \<Rightarrow>
          (case close (page env k p) of
             None \<Rightarrow> (Inr (Text html), setup @ [Op k p Content, Op k p ClosePage])
           | Some c \<Rightarrow> (Inl (BackendError c),
                        setup @ [Op k p Content, Op k p ClosePage, Op k p ClosePage]))))))))"

text \<open>
  The attempt of the Playwright scheduler (\<^verbatim>\<open>src/lib/ProxyPlaywright.ts\<close>, \<open>Proxy2.fetch\<close>),
  which renders every request:
  \<^verbatim>\<open>
  try {
    browser = await firefox.launch({ headless: true, args: [...], proxy: { server: ..., ... } });
    const context = await browser.newContext({ userAgent });
    await context.route("**/*", ...);
    page = await context.newPage();
    await page.goto(url.href, { waitUntil: "networkidle" });
    const html = await page.content();
    waitAndRelease(true);
    await page.close();
    await context.close();
    await browser.close();
    return html;
  } catch (err: any) {
    waitAndRelease(false);
    if (browser) {
      try {
        if (page && !page.isClosed()) await page.close();
        await browser.close();
      } catch { /* ignore errors on close */ }
    }
    ...
  }
  \<close>
  \<open>playwright_cleanup\<close> is the \<open>if (browser)\<close> block; a page whose \<open>close\<close> rejected counts
  as not closed.
\<close>

record playwright_run =
  launch :: "string option"
  newContext :: "string option"
  route :: "string option"
  pw_newPage :: "string option"
  pw_goto :: "string option"
  pw_content :: "string + string"
  pw_closePage :: "string option"
  closeContext :: "string option"
  closeBrowser :: "string option"

definition playwright_cleanup :: "playwright_run \<Rightarrow> nat \<Rightarrow> nat \<Rightarrow> bool \<Rightarrow> effect list" where
  "playwright_cleanup r k p page_open =
     (if page_open
      then (case pw_closePage r of
              Some c \<Rightarrow> [Op k p ClosePage]
            | None \<Rightarrow> [Op k p ClosePage, Op k p CloseBrowser])
      else [Op k p CloseBrowser])"

definition playwright_attempt :: "playwright_run \<Rightarrow> nat \<Rightarrow> nat \<Rightarrow> (js_err + payload) \<times> effect list" where
  "playwright_attempt r k p =
     (case launch r of
        Some e \<Rightarrow> (Inl (BackendError e), [Op k p Launch])
      | None \<Rightarrow>
     (case newContext r of
        Some e \<Rightarrow> (Inl (BackendError e),
                   [Op k p Launch, Op k p NewContext] @ playwright_cleanup r k p False)
      | None \<Rightarrow>
     (case route r of
        Some e \<Rightarrow> (Inl (BackendError e),
                   [Op k p Launch, Op k p NewContext, Op k p Route] @ playwright_cleanup r k p False)
      | None \<Rightarrow>
     (case pw_newPage r of
        Some e \<Rightarrow> (Inl (BackendError e),
                   [Op k p Launch, Op k p NewContext, Op k p Route, Op k p NewPage]
                     @ playwright_cleanup r k p False)
      | None \<Rightarrow>
     (let opened = [Op k p Launch, Op k p NewContext, Op k p Route, Op k p NewPage,
                    Op k p (Goto True)]
      in case pw_goto r of
        Some e \<Rightarrow> (Inl (BackendError e), opened @ playwright_cleanup r k p True)
      | None \<Rightarrow>
     (case pw_content r of
        Inl e \<Rightarrow> (Inl (BackendError e), opened @ [Op k p Content] @ playwright_cleanup r k p True)
      | Inr html \<Rightarrow>
     (case pw_closePage r of
        Some e \<Rightarrow> (Inl (BackendError e),
                   opened @ [Op k p Content, Op k p ClosePage] @ playwright_cleanup r k p True)
      | None \<Rightarrow>
     (case closeContext r of
        Some e \<Rightarrow> (Inl (BackendError e),
                   opened @ [Op k p Content, Op k p ClosePage, Op k p CloseContext]
                     @ playwright_cleanup r k p False)
      | None \<Rightarrow>
     (case closeBrowser r of
        Some e \<Rightarrow> (Inl (BackendError e),
                   opened @ [Op k p Content, Op k p ClosePage, Op k p CloseContext,
                             Op k p CloseBrowser] @ playwright_cleanup r k p False)
      | None \<Rightarrow> (Inr (Text html),
                   opened @ [Op k p Content, Op k p ClosePage, Op k p CloseContext,
                             Op k p CloseBrowser]))))))))))"

text \<open>
  An operation keeps the rendering sessions when it neither launches nor closes a
  browser or a browser context: it opens, drives or closes a page.
\<close>

fun session_kept :: "browser_op \<Rightarrow> bool" where
  "session_kept Launch = False"
| "session_kept NewContext = False"
| "session_kept Route = False"
| "session_kept CloseContext = False"
| "session_kept CloseBrowser = False"
| "session_kept _ = True"

definition page_ops_only :: "nat \<Rightarrow> nat \<Rightarrow> effect list \<Rightarrow> bool" where
  "page_ops_only k p ops \<longleftrightarrow> (\<forall>e \<in> set ops. \<exists>bop. e = Op k p bop \<and> session_kept bop)"

definition sessions_kept :: "effect list \<Rightarrow> bool" where
  "sessions_kept tr \<longleftrightarrow> (\<forall>k p bop. Op k p bop \<in> set tr \<longrightarrow> session_kept bop)"

text \<open>
  Sample configurations and environments for the runs below. \<open>run1\<close> leaves the pool of
  \<open>cfg1\<close> in use: an earlier attempt on the one port has just failed and holds the only
  permit of the hostname while it cools down. \<open>used2\<close> is the pool of \<open>cfg2\<close> after
  \<open>run2\<close>; in \<open>env_ids\<close> the header generator gives a different identity each time.
\<close>

definition cfg1 :: config where
  "cfg1 = \<lparr>ports = [10000], sameHostnameSuccessDelay = 500, sameHostnameErrorDelay = 2000, maxTries = 1\<rparr>"



definition ok_page :: page_run where
  "ok_page = \<lparr>newPage = None, authenticate = None, setRequestInterception = None,
              goto = None, content = Inr ''<html></html>'', close = None\<rparr>"

definition env_fail :: env where
  "env_fail = \<lparr>draws = (\<lambda>_ _. 0), getHeaders = (\<lambda>_ _. Map.empty),
     http = (\<lambda>_ _. Throws ''ECONNRESET''), broadcast = (\<lambda>_ _. Throws ''ECONNRESET''),
     pick = (\<lambda>_. 0), browser = (\<lambda>_. None), page = (\<lambda>_ _. ok_page),
     axios = (\<lambda>_ _. AxiosError ''timeout of 70000ms exceeded'' None), elapsed = (\<lambda>_. 100),
     others = (\<lambda>_ _. [])\<rparr>"


definition found :: response where
  "found = \<lparr>ok = True, status = 200, body_text = Some ''{}''\<rparr>"



definition u1 :: url where
  "u1 = \<lparr>href = ''https://a.example/x'', hostname = ''a.example''\<rparr>"


definition ok_run :: playwright_run where
  "ok_run = \<lparr>launch = None, newContext = None, route = None, pw_newPage = None, pw_goto = None,
             pw_content = Inr ''<html></html>'', pw_closePage = None, closeContext = None,
             closeBrowser = None\<rparr>"




subsection \<open>Soundness of the pool\<close>


lemma claims_coveredD:
  "claims_covered st \<Longrightarrow> h \<in> hostnames st p \<Longrightarrow> \<exists>a. holds_claim p h (phase st a)"
  unfolding claims_covered_def by blast

lemma claims_covered_same:
  assumes inv: "claims_covered st"
    and same: "\<And>p h. holds_claim p h ph = holds_claim p h (phase st a)"
    and hs: "hostnames st' = hostnames st" and ph: "phase st' = (phase st)(a := ph)"
  shows "claims_covered st'"
  unfolding claims_covered_def
proof (intro allI impI)
  fix p h assume "h \<in> hostnames st' p"
  with hs inv obtain b where b: "holds_claim p h (phase st b)"
    by (auto dest: claims_coveredD)
  then have "holds_claim p h (phase st' b)"
    using same [of p h] ph by (cases "b = a") simp_all
  then show "\<exists>a. holds_claim p h (phase st' a)" ..
qed

lemma step_claims_covered:
  assumes inv: "claims_covered st" and "step cfg st e = Some st'"
  shows "claims_covered st'"
proof (cases e)
  case (Tick d)
  with assms show ?thesis by (auto simp: claims_covered_def)
next
  case (Start a h)
  with assms have ph: "phase st a = Idle"
    and st': "st' = set_phase a (AwaitPermit h) (semaphore_for cfg h st)"
    by (auto split: phase.splits)
  show ?thesis
    by (rule claims_covered_same [OF inv, where a = a and ph = "AwaitPermit h"]) (simp_all add: ph st')
next
  case (Acquire a)
  with assms obtain h v where ph: "phase st a = AwaitPermit h"
    and st': "st' = set_phase a (Scanning h) (st\<lparr>semaphores := (semaphores st)(h \<mapsto> v)\<rparr>)"
    by (auto split: phase.splits option.splits nat.splits)
  show ?thesis
    by (rule claims_covered_same [OF inv, where a = a and ph = "Scanning h"]) (simp_all add: ph st')
next
  case (Claim a p)
  with assms obtain h where ph: "phase st a = Scanning h"
    and st': "st' = set_phase a (Running h p) (st\<lparr>hostnames := (hostnames st)(p := insert h (hostnames st p))\<rparr>)"
    by (auto split: phase.splits if_splits)
  show ?thesis
    unfolding claims_covered_def
  proof (intro allI impI)
    fix q g assume m: "g \<in> hostnames st' q"
    show "\<exists>b. holds_claim q g (phase st' b)"
    proof (cases "q = p \<and> g = h")
      case True
      then have "holds_claim q g (phase st' a)" by (simp add: st')
      then show ?thesis ..
    next
      case False
      with m have "g \<in> hostnames st q" by (auto simp: st' split: if_splits)
      with inv obtain b where b: "holds_claim q g (phase st b)"
        by (auto dest: claims_coveredD)
      with ph have "b \<noteq> a" by auto
      with b have "holds_claim q g (phase st' b)" by (simp add: st')
      then show ?thesis ..
    qed
  qed
next
  case (AbortScan a)
  with assms obtain h where ph: "phase st a = Scanning h"
    and st': "st' = set_phase a (Aborted h) (sem_release h st)"
    by (auto split: phase.splits)
  show ?thesis
    by (rule claims_covered_same [OF inv, where a = a and ph = "Aborted h"]) (simp_all add: ph st')
next
  case (Settle a s)
  with assms obtain h p where ph: "phase st a = Running h p"
    and st': "st' = set_phase a (Cooling h p (clock st) s) st"
    by (auto split: phase.splits)
  show ?thesis
    by (rule claims_covered_same [OF inv, where a = a and ph = "Cooling h p (clock st) s"])
       (simp_all add: ph st')
next
  case (Unclaim a)
  with assms obtain h p t s where ph: "phase st a = Cooling h p t s"
    and st': "st' = set_phase a (Unclaimed h p t s (clock st))
                  (st\<lparr>hostnames := (hostnames st)(p := hostnames st p - {h})\<rparr>)"
    by (auto split: phase.splits if_splits)
  show ?thesis
    unfolding claims_covered_def
  proof (intro allI impI)
    fix q g assume m: "g \<in> hostnames st' q"
    then have ne: "\<not> (q = p \<and> g = h)" and "g \<in> hostnames st q"
      by (auto simp: st' split: if_splits)
    with inv obtain b where b: "holds_claim q g (phase st b)"
      by (auto dest: claims_coveredD)
    with ph ne have "b \<noteq> a" by auto
    with b have "holds_claim q g (phase st' b)" by (simp add: st')
    then show "\<exists>b. holds_claim q g (phase st' b)" ..
  qed
next
  case (Release a)
  with assms obtain h p t s td where ph: "phase st a = Unclaimed h p t s td"
    and st': "st' = set_phase a (Released h p t s td (clock st)) (sem_release h st)"
    by (auto split: phase.splits)
  show ?thesis
    by (rule claims_covered_same [OF inv, where a = a and ph = "Released h p t s td (clock st)"])
       (simp_all add: ph st')
next
  case (ChainFail a)
  with assms obtain h p t s where ph: "phase st a = Cooling h p t s"
    and st': "st' = set_phase a (Leaked h p t s) (st\<lparr>logged := logged st @ [a]\<rparr>)"
    by (auto split: phase.splits)
  show ?thesis
    by (rule claims_covered_same [OF inv, where a = a and ph = "Leaked h p t s"])
       (simp_all add: ph st')
qed


lemma step_sound: "sound cfg st \<Longrightarrow> step cfg st e = Some st' \<Longrightarrow> sound cfg st'"
  unfolding sound_def
  using step_permits_balanced step_claims_exclusive step_claims_covered by blast



lemma tick_sound: "sound cfg st \<Longrightarrow> sound cfg (st\<lparr>clock := clock st + d\<rparr>)"
  using step_sound [of cfg st "Tick d"] by simp


subsection \<open>Deferred releases\<close>

lemma step_phase_other:
  assumes "step cfg st e = Some st'" and "actor e \<noteq> Some a"
  shows "phase st' a = phase st a"
  using assms by (cases e) (auto split: phase.splits option.splits nat.splits if_splits)

lemma fire_cases:
  "fire cfg a st = st \<or>
   (\<exists>s1. step cfg st (Unclaim a) = Some s1 \<and> step cfg s1 (Release a) = Some (fire cfg a st)) \<or>
   step cfg st (Release a) = Some (fire cfg a st)"
proof (cases "step cfg st (Unclaim a)")
  case None
  then show ?thesis by (cases "step cfg st (Release a)") (simp_all add: fire_def)
next
  case (Some s1)
  then obtain h p t s where "phase s1 a = Unclaimed h p t s (clock st)"
    by (auto split: phase.splits if_splits)
  then have "step cfg s1 (Release a) = Some (fire cfg a st)"
    using Some by (simp add: fire_def)
  with Some show ?thesis by blast
qed

lemma preservedD:
  "preserved cfg P \<Longrightarrow> gentle e \<Longrightarrow> P st \<Longrightarrow> step cfg st e = Some st' \<Longrightarrow> P st'"
  unfolding preserved_def by blast

lemma fire_preserves:
  assumes "preserved cfg P" and "P st"
  shows "P (fire cfg a st)"
proof -
  have u: "gentle (Unclaim a)" and r: "gentle (Release a)" by simp_all
  from fire_cases [of cfg a st] show ?thesis
  proof (elim disjE exE conjE)
    assume "fire cfg a st = st"
    with assms(2) show ?thesis by simp
  next
    fix s1 assume 1: "step cfg st (Unclaim a) = Some s1"
      and 2: "step cfg s1 (Release a) = Some (fire cfg a st)"
    from preservedD [OF assms(1) u assms(2) 1] have "P s1" .
    from preservedD [OF assms(1) r this 2] show ?thesis .
  next
    assume "step cfg st (Release a) = Some (fire cfg a st)"
    from preservedD [OF assms(1) r assms(2) this] show ?thesis .
  qed
qed

lemma fire_clock [simp]: "clock (fire cfg a st) = clock st"
  by (auto simp: fire_def split: option.splits phase.splits if_splits)

lemma fire_phase:
  "phase (fire cfg a st) b = (if b = a then fired cfg (clock st) (phase st a) else phase st b)"
  by (cases "phase st a")
     (auto simp: fire_def fired_def split: option.splits if_splits)

lemma fired_idem [simp]: "fired cfg now (fired cfg now ph) = fired cfg now ph"
  by (cases ph) (simp_all add: fired_def)

lemma fold_fire_clock [simp]: "clock (fold (fire cfg) as st) = clock st"
  by (induction as arbitrary: st) simp_all

lemma fold_fire_phase:
  "phase (fold (fire cfg) as st) b =
     (if b \<in> set as then fired cfg (clock st) (phase st b) else phase st b)"
  by (induction as arbitrary: st) (simp_all add: fire_phase)

lemma fold_fire_preserves:
  assumes "preserved cfg P" and "P st"
  shows "P (fold (fire cfg) as st)"
  using assms(2)
proof (induction as arbitrary: st)
  case Nil
  then show ?case by simp
next
  case (Cons a as)
  from fire_preserves [OF assms(1) Cons.prems] show ?case
    by (simp add: Cons.IH)
qed

lemma fire_due_clock [simp]: "clock (fire_due cfg n st) = clock st"
  by (simp add: fire_due_def)

lemma fire_due_phase:
  "phase (fire_due cfg n st) b = (if b < n then fired cfg (clock st) (phase st b) else phase st b)"
  by (simp add: fire_due_def fold_fire_phase)

lemma fire_due_preserves: "preserved cfg P \<Longrightarrow> P st \<Longrightarrow> P (fire_due cfg n st)"
  unfolding fire_due_def by (rule fold_fire_preserves)


lemma preserved_sound: "preserved cfg (sound cfg)"
  unfolding preserved_def using step_sound by blast

subsection \<open>What the other calls do meanwhile\<close>

lemma occur_cases:
  "occur cfg base e st = st \<or> (foreign base e \<and> step cfg st e = Some (occur cfg base e st))"
  by (cases "step cfg st e") (simp_all add: occur_def)

lemma meanwhile_all:
  assumes "\<And>s e s'. P s \<Longrightarrow> foreign base e \<Longrightarrow> step cfg s e = Some s' \<Longrightarrow> P s'" and "P st"
  shows "P (meanwhile cfg base es st)"
  unfolding meanwhile_def using assms(2)
proof (induction es arbitrary: st)
  case Nil
  then show ?case by simp
next
  case (Cons e es)
  from occur_cases [of cfg base e st] Cons.prems assms(1) have "P (occur cfg base e st)"
    by metis
  then show ?case by (simp add: Cons.IH)
qed


lemma meanwhile_sound: "sound cfg st \<Longrightarrow> sound cfg (meanwhile cfg base es st)"
  by (rule meanwhile_all [where P = "sound cfg"]) (auto dest: step_sound)

lemma meanwhile_phase:
  assumes "base \<le> a"
  shows "phase (meanwhile cfg base es st) a = phase st a"
proof -
  have "phase (meanwhile cfg base es st) a = phase st a \<and> True"
  proof (rule meanwhile_all [where P = "\<lambda>s. phase s a = phase st a \<and> True"])
    fix s e s' assume p: "phase s a = phase st a \<and> True" and f: "foreign base e"
      and s: "step cfg s e = Some s'"
    from f assms have "actor e \<noteq> Some a"
      by (auto simp: foreign_def split: option.splits)
    from step_phase_other [OF s this] p show "phase s' a = phase st a \<and> True" by simp
  qed simp
  then show ?thesis by simp
qed

lemma fired_resting: "resting ph \<Longrightarrow> fired cfg now ph = ph"
  by (cases ph) (simp_all add: fired_def)

lemma suspend_sound: "sound cfg st \<Longrightarrow> sound cfg (suspend cfg env base k pt d st)"
  unfolding suspend_def Let_def
  by (intro fire_due_preserves [OF preserved_sound] tick_sound meanwhile_sound)

lemma suspend_phase_above:
  assumes "base + k < a"
  shows "phase (suspend cfg env base k pt d st) a = phase st a"
  using assms by (simp add: suspend_def Let_def fire_due_phase meanwhile_phase)

lemma suspend_phase_own:
  assumes "resting (phase st (base + k))"
  shows "phase (suspend cfg env base k pt d st) (base + k) = phase st (base + k)"
  using assms by (simp add: suspend_def Let_def fire_due_phase meanwhile_phase fired_resting)

lemma wait_release_sound: "sound cfg st \<Longrightarrow> sound cfg (wait_release cfg env base k i h st)"
  unfolding wait_release_def Let_def
  by (intro fire_due_preserves [OF preserved_sound] tick_sound meanwhile_sound)

lemma wait_release_phase_above:
  assumes "base + k < a"
  shows "phase (wait_release cfg env base k i h st) a = phase st a"
  using assms by (simp add: wait_release_def Let_def fire_due_phase meanwhile_phase)

lemma wait_release_phase_own:
  assumes "resting (phase st (base + k))"
  shows "phase (wait_release cfg env base k i h st) (base + k) = phase st (base + k)"
  using assms by (simp add: wait_release_def Let_def fire_due_phase meanwhile_phase fired_resting)

lemma unused_above: "unused (Suc n) st \<longleftrightarrow> (\<forall>a>n. phase st a = Idle)"
  by (auto simp: unused_def Suc_le_eq)

lemma at_phase_suspend:
  assumes "at_phase cfg (base + k) ph st" and "resting ph"
  shows "at_phase cfg (base + k) ph (suspend cfg env base k pt d st)"
  using assms
  by (auto simp: at_phase_def suspend_sound suspend_phase_own suspend_phase_above unused_above)

lemma at_phase_wait_release:
  assumes "at_phase cfg (base + k) ph st" and "resting ph"
  shows "at_phase cfg (base + k) ph (wait_release cfg env base k i h st)"
  using assms
  by (auto simp: at_phase_def wait_release_sound wait_release_phase_own wait_release_phase_above
      unused_above)

subsection \<open>What an acquisition that ends has done\<close>

lemma await_permit_rule:
  assumes "await_permit cfg env base k i h st = Some st'" and "P st"
    and w: "\<And>s j. P s \<Longrightarrow> P (wait_release cfg env base k j h s)"
    and a: "\<And>s s'. P s \<Longrightarrow> step cfg s (Acquire (base + k)) = Some s' \<Longrightarrow> Q s'"
  shows "Q st'"
  using assms
proof (induction rule: await_permit.raw_induct [rotated 1, consumes 1])
  case (1 await_permit' cfg' env' base' k' i' h' st0 y)
  show ?case
  proof (cases "step cfg' st0 (Acquire (base' + k'))")
    case None
    with 1(2) have "await_permit' cfg' env' base' k' (Suc i') h' (wait_release cfg' env' base' k' i' h' st0) = Some y"
      by simp
    from 1(1) [OF this 1(4) [OF 1(3)] 1(4) 1(5)] show ?thesis .
  next
    case (Some s')
    with 1(2) have "s' = y" by simp
    with 1(5) [OF 1(3) Some] show ?thesis by simp
  qed
qed

lemma getAvailablePort_rule:
  assumes "getAvailablePort cfg env base k j ps st = Some (p, st')" and "P st"
    and w: "\<And>s i. P s \<Longrightarrow> P (suspend cfg env base k (Port i) 50 s)"
    and a: "\<And>s q s'. P s \<Longrightarrow> scan_ports cfg (base + k) ps s = Some (q, s') \<Longrightarrow> Q q s'"
  shows "Q p st'"
proof -
  have "Q (fst (p, st')) (snd (p, st'))"
    using assms
  proof (induction cfg env base k j ps st "(p, st')" rule: getAvailablePort.raw_induct [rotated 1, consumes 1])
    case (1 getAvailablePort' cfg' env' base' k' j' ps' st0)
    show ?case
    proof (cases "scan_ports cfg' (base' + k') ps' st0")
      case None
      with 1(2) have "getAvailablePort' cfg' env' base' k' (Suc j') ps' (suspend cfg' env' base' k' (Port j') 50 st0) = Some (p, st')"
        by simp
      from 1(1) [OF this 1(4) [OF 1(3)] 1(4) 1(5)] show ?thesis .
    next
      case (Some r)
      with 1(2) have "r = (p, st')" by simp
      with 1(5) [OF 1(3)] Some show ?thesis by simp
    qed
  qed
  then show ?thesis by simp
qed


lemma acquire_phase:
  assumes "phase st n = AwaitPermit h" and "step cfg st (Acquire n) = Some st'"
  shows "phase st' = (phase st)(n := Scanning h)"
  using assms by (auto split: option.splits nat.splits)


lemma acquire_at_phase:
  assumes "at_phase cfg n (AwaitPermit h) st" and s: "step cfg st (Acquire n) = Some st'"
  shows "at_phase cfg n (Scanning h) st'"
proof -
  from assms(1) have ph: "phase st n = AwaitPermit h" by (simp add: at_phase_def)
  from acquire_phase [OF ph s] assms(1) step_sound [OF _ s] show ?thesis
    by (auto simp: at_phase_def unused_def)
qed

lemma await_permit_at_phase:
  assumes "await_permit cfg env base k i h st = Some st'"
    and "at_phase cfg (base + k) (AwaitPermit h) st"
  shows "at_phase cfg (base + k) (Scanning h) st'"
proof (rule await_permit_rule [OF assms(1), where P = "at_phase cfg (base + k) (AwaitPermit h)"])
  show "at_phase cfg (base + k) (AwaitPermit h) st" by fact
next
  fix s j assume "at_phase cfg (base + k) (AwaitPermit h) s"
  then show "at_phase cfg (base + k) (AwaitPermit h) (wait_release cfg env base k j h s)"
    by (rule at_phase_wait_release) simp
next
  fix s s' assume "at_phase cfg (base + k) (AwaitPermit h) s" "step cfg s (Acquire (base + k)) = Some s'"
  then show "at_phase cfg (base + k) (Scanning h) s'" by (rule acquire_at_phase)
qed

lemma scan_ports_phase:
  assumes "scan_ports cfg n ps st = Some (p, st')" and ph: "phase st n = Scanning h"
  shows "phase st' = (phase st)(n := Running h p) \<and> p \<in> set ps \<and> p < length (ports cfg)"
proof -
  from scan_ports_claims [OF assms(1)] have p: "p \<in> set ps" and s: "step cfg st (Claim n p) = Some st'"
    by simp_all
  from s ph have "phase st' = (phase st)(n := Running h p)" "p < length (ports cfg)"
    by (auto split: if_splits)
  with p show ?thesis by simp
qed

lemma scan_ports_at_phase:
  assumes sc: "scan_ports cfg n ps st = Some (p, st')" and a: "at_phase cfg n (Scanning h) st"
  shows "at_phase cfg n (Running h p) st'"
proof -
  from a have ph: "phase st n = Scanning h" by (simp add: at_phase_def)
  from scan_ports_claims [OF sc] have s: "step cfg st (Claim n p) = Some st'" by simp
  from scan_ports_phase [OF sc ph] a step_sound [OF _ s] show ?thesis
    by (auto simp: at_phase_def unused_def)
qed


lemma getAvailablePort_at_phase:
  assumes "getAvailablePort cfg env base k j ps st = Some (p, st')"
    and "at_phase cfg (base + k) (Scanning h) st"
  shows "at_phase cfg (base + k) (Running h p) st'"
proof (rule getAvailablePort_rule [OF assms(1), where P = "at_phase cfg (base + k) (Scanning h)"])
  show "at_phase cfg (base + k) (Scanning h) st" by fact
next
  fix s i assume "at_phase cfg (base + k) (Scanning h) s"
  then show "at_phase cfg (base + k) (Scanning h) (suspend cfg env base k (Port i) 50 s)"
    by (rule at_phase_suspend) simp
next
  fix s q s' assume "at_phase cfg (base + k) (Scanning h) s" "scan_ports cfg (base + k) ps s = Some (q, s')"
  from scan_ports_at_phase [OF this(2,1)] show "at_phase cfg (base + k) (Running h q) s'" .
qed

lemma start_phase:
  assumes "step cfg st (Start n h) = Some st1"
  shows "phase st n = Idle \<and> phase st1 = (phase st)(n := AwaitPermit h) \<and> semaphores st1 h \<noteq> None"
  using assms by (auto simp: semaphore_for_def split: phase.splits option.splits)


lemma start_at_phase:
  assumes 1: "step cfg st (Start n h) = Some st1" and so: "sound cfg st" and un: "unused n st"
  shows "at_phase cfg n (AwaitPermit h) st1"
  using start_phase [OF 1] step_sound [OF so 1] un
  by (auto simp: at_phase_def unused_def)

lemma acquire_port_at_phase:
  assumes "acquire_port cfg env base k h st = Some (p, st')"
    and so: "sound cfg st" and un: "unused (base + k) st"
  shows "at_phase cfg (base + k) (Running h p) st'"
proof -
  from assms(1) obtain st1 st2 where
    1: "step cfg st (Start (base + k) h) = Some st1" and
    2: "await_permit cfg env base k 0 h st1 = Some st2" and
    3: "getAvailablePort cfg env base k 0 (shuffleArray (draws env k) [0..<length (ports cfg)]) st2 = Some (p, st')"
    by (auto simp: acquire_port_def split: option.splits)
  from start_at_phase [OF 1 so un] have "at_phase cfg (base + k) (AwaitPermit h) st1" .
  from await_permit_at_phase [OF 2 this] have "at_phase cfg (base + k) (Scanning h) st2" .
  from getAvailablePort_at_phase [OF 3 this] show ?thesis .
qed




subsection \<open>A call that is left its permit gets its port\<close>


































subsection \<open>What a call that ends has done\<close>

lemma attempts_append [simp]: "attempts (xs @ ys) = attempts xs + attempts ys"
  by (simp add: attempts_def)

lemma attempts_Cons [simp]:
  "attempts (Attempt k p # xs) = Suc (attempts xs)"
  "attempts (Sent k q hr m hdrs b # xs) = attempts xs"
  "attempts (Op k p bop # xs) = attempts xs"
  "attempts [] = 0"
  by (simp_all add: attempts_def)

lemma attempts_map_Sent [simp]: "attempts (map (\<lambda>q. Sent k q hr m (f q) b) qs) = 0"
  by (induction qs) simp_all





lemma fetch_legacy_step:
  assumes "fetch_legacy cfg env u opts base k w = Some (res, w')" and more: "int k < maxTries cfg"
  obtains p st r effs dt st' where
    "acquire_port cfg env base k (hostname u) (sched w) = Some (p, st)"
    "legacy_backend cfg env u opts k p = (r, effs, dt)"
    "settle cfg env base k (elapsed env k + dt) (\<not> isl r) st = Some st'"
    "(\<exists>v. r = Inr v \<and> res = Inr v \<and> w' = \<lparr>sched = st', trace = trace w @ Attempt k p # effs\<rparr>) \<or>
     (isl r \<and> fetch_legacy cfg env u opts base (Suc k)
                 \<lparr>sched = st', trace = trace w @ Attempt k p # effs\<rparr> = Some (res, w'))"
proof -
  from more have m: "\<not> maxTries cfg \<le> int k" by simp
  from assms(1) m obtain p st where
    acq: "acquire_port cfg env base k (hostname u) (sched w) = Some (p, st)"
    by (subst (asm) fetch_legacy.simps) (auto split: option.splits)
  obtain r effs dt where be: "legacy_backend cfg env u opts k p = (r, effs, dt)"
    by (cases "legacy_backend cfg env u opts k p")
  show thesis
  proof (cases r)
    case (Inr v)
    with assms(1) m acq be obtain st' where
      "settle cfg env base k (elapsed env k + dt) True st = Some st'"
      "res = Inr v" "w' = \<lparr>sched = st', trace = trace w @ Attempt k p # effs\<rparr>"
      by (subst (asm) fetch_legacy.simps) (auto split: option.splits)
    with that [OF acq be, of st'] Inr show ?thesis by simp
  next
    case (Inl e)
    with assms(1) m acq be obtain st' where
      "settle cfg env base k (elapsed env k + dt) False st = Some st'"
      "fetch_legacy cfg env u opts base (Suc k) \<lparr>sched = st', trace = trace w @ Attempt k p # effs\<rparr>
         = Some (res, w')"
      by (subst (asm) fetch_legacy.simps) (auto split: option.splits)
    with that [OF acq be, of st'] Inl show ?thesis by simp
  qed
qed

lemma fetch_legacy_end:
  "maxTries cfg \<le> int k \<Longrightarrow>
     fetch_legacy cfg env u opts base k w = Some (Inl (MaxTriesExceeded (href u) (clock (sched w))), w)"
  by (subst fetch_legacy.simps) simp






subsection \<open>A call that is left its permit ends\<close>

lemma ready_Suc: "ready cfg (Suc (base + k)) h st \<Longrightarrow> ready cfg (base + Suc k) h st"
  by simp







subsection \<open>The broadcast\<close>

lemma map_filter_id_map: "List.map_filter id (map f xs) = List.map_filter f xs"
  by (induction xs) (simp_all add: List.map_filter_def)

lemma sendRequestsToAllPorts_eq:
  "sendRequestsToAllPorts cfg env u m hs b k =
     (if survivors cfg env k = [] then Inl NoValidResponses
      else Inr (element (survivors cfg env k) (draw_index (pick env k) (length (survivors cfg env k)))),
      map (\<lambda>q. Sent k q (href u) m (legacy_request_headers (getHeaders env k (Suc q)) hs) b)
        [0..<length (ports cfg)])"
  by (simp add: sendRequestsToAllPorts_def survivors_def Let_def map_filter_id_map)










subsection \<open>Rendering attempts\<close>

lemma legacy_browser_page_ops: "page_ops_only k p (snd (legacy_browser env idle k p))"
  by (simp add: legacy_browser_def page_ops_only_def split: option.splits sum.splits)

lemma nostealth_browser_page_ops: "page_ops_only k p (snd (nostealth_browser env idle k p))"
  by (simp add: nostealth_browser_def page_ops_only_def Let_def split: option.splits sum.splits)

lemma legacy_browser_opens:
  assumes "browser env p = None"
  shows "\<exists>rest. snd (legacy_browser env idle k p) = Op k p NewPage # rest"
  using assms by (simp add: legacy_browser_def split: option.splits sum.splits)

lemma legacy_browser_closes:
  assumes "browser env p = None" and "newPage (page env k p) = None"
  shows "last (snd (legacy_browser env idle k p)) = Op k p ClosePage \<and>
         count_list (snd (legacy_browser env idle k p)) (Op k p ClosePage) = 1"
  using assms by (simp add: legacy_browser_def split: option.splits sum.splits)

lemma legacy_browser_no_page:
  assumes "browser env p \<noteq> None \<or> newPage (page env k p) \<noteq> None"
  shows "Op k p ClosePage \<notin> set (snd (legacy_browser env idle k p))"
  using assms by (auto simp: legacy_browser_def split: option.splits sum.splits)

lemma nostealth_browser_closes:
  assumes "browser env p = None" and "newPage (page env k p) = None"
    and "authenticate (page env k p) = None" and "setRequestInterception (page env k p) = None"
  shows "Op k p ClosePage \<in> set (snd (nostealth_browser env idle k p))"
  using assms by (simp add: nostealth_browser_def Let_def split: option.splits sum.splits)

lemma playwright_success:
  assumes "fst (playwright_attempt r k p) = Inr v"
  shows "snd (playwright_attempt r k p) =
           [Op k p Launch, Op k p NewContext, Op k p Route, Op k p NewPage, Op k p (Goto True),
            Op k p Content, Op k p ClosePage, Op k p CloseContext, Op k p CloseBrowser]"
  using assms by (simp add: playwright_attempt_def Let_def split: option.splits sum.splits)

lemma sessions_kept_append: "sessions_kept (xs @ ys) \<longleftrightarrow> sessions_kept xs \<and> sessions_kept ys"
  by (auto simp: sessions_kept_def)

lemma sessions_kept_Cons_Attempt [simp]: "sessions_kept (Attempt k p # xs) \<longleftrightarrow> sessions_kept xs"
  by (auto simp: sessions_kept_def)

lemma sessions_kept_Cons_Sent [simp]: "sessions_kept (Sent k q hr m hdrs b # xs) \<longleftrightarrow> sessions_kept xs"
  by (auto simp: sessions_kept_def)

lemma sessions_kept_map_Sent [simp]: "sessions_kept (map (\<lambda>q. Sent k q hr m (f q) b) qs)"
  by (auto simp: sessions_kept_def)

lemma sessions_kept_Nil [simp]: "sessions_kept []"
  by (simp add: sessions_kept_def)

lemma page_ops_sessions_kept: "page_ops_only k p ops \<Longrightarrow> sessions_kept ops"
  by (fastforce simp: page_ops_only_def sessions_kept_def)

lemma legacy_backend_sessions_kept: "sessions_kept (fst (snd (legacy_backend cfg env u opts k p)))"
proof (cases opts)
  case (Browser idle)
  with page_ops_sessions_kept [OF legacy_browser_page_ops [of k p env idle]] show ?thesis
    by (cases "legacy_browser env idle k p") (simp add: legacy_backend_def)
next
  case (Http m hs b)
  obtain r sent where s: "sendRequestsToAllPorts cfg env u m hs b k = (r, sent)"
    by (cases "sendRequestsToAllPorts cfg env u m hs b k")
  then have "sessions_kept sent"
    by (auto simp: sendRequestsToAllPorts_eq)
  with s Http show ?thesis
    by (cases r) (simp_all add: legacy_backend_def legacy_http_def Let_def
                    split: http_result.splits option.splits)
qed


lemma fetch_legacy_sessions_kept:
  "fetch_legacy cfg env u opts base k w = Some (r, w') \<Longrightarrow> sessions_kept (trace w) \<Longrightarrow>
     sessions_kept (trace w')"
proof (induction "nat (maxTries cfg) - k" arbitrary: k w)
  case 0
  then have "maxTries cfg \<le> int k" by linarith
  from fetch_legacy_end [OF this, of env u opts base w] "0.prems" show ?case
    by auto
next
  case (Suc n)
  then have more: "int k < maxTries cfg" by linarith
  from Suc.hyps(2) have n: "n = nat (maxTries cfg) - Suc k" by linarith
  from Suc.prems(1) more obtain p st res effs dt st' where
    be: "legacy_backend cfg env u opts k p = (res, effs, dt)" and
    alt: "(\<exists>v. res = Inr v \<and> r = Inr v \<and> w' = \<lparr>sched = st', trace = trace w @ Attempt k p # effs\<rparr>) \<or>
     (isl res \<and> fetch_legacy cfg env u opts base (Suc k)
                 \<lparr>sched = st', trace = trace w @ Attempt k p # effs\<rparr> = Some (r, w'))"
    by (rule fetch_legacy_step)
  from legacy_backend_sessions_kept [of cfg env u opts k p] be have ke: "sessions_kept effs"
    by simp
  let ?tr = "trace w @ Attempt k p # effs"
  from ke Suc.prems(2) have kt: "sessions_kept ?tr"
    by (simp add: sessions_kept_append)
  from alt show ?case
  proof (elim disjE exE conjE)
    fix v assume "w' = \<lparr>sched = st', trace = ?tr\<rparr>"
    with kt show ?thesis by simp
  next
    assume "fetch_legacy cfg env u opts base (Suc k) \<lparr>sched = st', trace = ?tr\<rparr> = Some (r, w')"
    from Suc.hyps(1) [OF n this] kt show ?thesis by simp
  qed
qed







subsection \<open>The claims on fetch\<close>







text \<open>
  Claim C7, as stated, fails on the Playwright scheduler: a successful attempt closes the
  browser it rendered with.
\<close>

theorem playwright_attempt_closes_browser_counterexample:
  "fst (playwright_attempt ok_run 0 0) = Inr (Text ''<html></html>'') \<and>
   Op 0 0 CloseBrowser \<in> set (snd (playwright_attempt ok_run 0 0)) \<and>
   \<not> sessions_kept (snd (playwright_attempt ok_run 0 0))"
proof -
  have a: "fst (playwright_attempt ok_run 0 0) = Inr (Text ''<html></html>'')"
    by (simp add: playwright_attempt_def ok_run_def)
  have b: "Op 0 0 CloseBrowser \<in> set (snd (playwright_attempt ok_run 0 0))"
    by (simp add: playwright_attempt_def ok_run_def)
  then have "\<not> sessions_kept (snd (playwright_attempt ok_run 0 0))"
    unfolding sessions_kept_def using session_kept.simps(5) by blast
  with a b show ?thesis by (intro conjI)
qed

lemma nostealth_browser_opens:
  assumes "browser env p = None"
  shows "\<exists>rest. snd (nostealth_browser env idle k p) = Op k p NewPage # rest"
  using assms by (simp add: nostealth_browser_def Let_def split: option.splits sum.splits)

lemma playwright_launches: "\<exists>rest. snd (playwright_attempt r k p) = Op k p Launch # rest"
  by (simp add: playwright_attempt_def Let_def split: option.splits sum.splits)

text \<open>
  Claim C7, amended. A rendering attempt of the legacy or of the no-stealth scheduler
  only opens, drives and closes a page in the session of the claimed port: it never
  launches or closes a session. Both call \<open>newPage\<close> first whenever the session is
  there. The legacy attempt closes the page it opened exactly once, as its last call,
  whether it succeeded or failed; it closes no page when it opened none. The no-stealth
  attempt closes its page when the set-up of the page (\<open>authenticate\<close>,
  \<open>setRequestInterception\<close>) succeeded. No call of a legacy \<open>fetch\<close> launches or closes a
  session, in whatever state it starts. The Playwright scheduler keeps no session: every
  attempt begins by launching a browser of its own, and a successful attempt has closed
  its page, its context and that browser.
\<close>

theorem render_attempt_keeps_session:
  "page_ops_only k p (snd (legacy_browser env idle k p)) \<and>
   (browser env p = None \<longrightarrow> (\<exists>rest. snd (legacy_browser env idle k p) = Op k p NewPage # rest)) \<and>
   (browser env p = None \<longrightarrow> newPage (page env k p) = None \<longrightarrow>
      last (snd (legacy_browser env idle k p)) = Op k p ClosePage \<and>
      count_list (snd (legacy_browser env idle k p)) (Op k p ClosePage) = 1) \<and>
   (browser env p \<noteq> None \<or> newPage (page env k p) \<noteq> None \<longrightarrow>
      Op k p ClosePage \<notin> set (snd (legacy_browser env idle k p))) \<and>
   page_ops_only k p (snd (nostealth_browser env idle k p)) \<and>
   (browser env p = None \<longrightarrow> (\<exists>rest. snd (nostealth_browser env idle k p) = Op k p NewPage # rest)) \<and>
   (browser env p = None \<longrightarrow> newPage (page env k p) = None \<longrightarrow>
    authenticate (page env k p) = None \<longrightarrow> setRequestInterception (page env k p) = None \<longrightarrow>
      Op k p ClosePage \<in> set (snd (nostealth_browser env idle k p))) \<and>
   (\<exists>rest. snd (playwright_attempt r k p) = Op k p Launch # rest) \<and>
   (\<forall>v. fst (playwright_attempt r k p) = Inr v \<longrightarrow>
      snd (playwright_attempt r k p) =
        [Op k p Launch, Op k p NewContext, Op k p Route, Op k p NewPage, Op k p (Goto True),
         Op k p Content, Op k p ClosePage, Op k p CloseContext, Op k p CloseBrowser]) \<and>
   (\<forall>base n w res w'. sessions_kept (trace w) \<longrightarrow>
      fetch_legacy cfg env u opts base n w = Some (res, w') \<longrightarrow> sessions_kept (trace w'))"
proof -
  have c1: "page_ops_only k p (snd (legacy_browser env idle k p))"
    by (rule legacy_browser_page_ops)
  have c2: "browser env p = None \<longrightarrow> (\<exists>rest. snd (legacy_browser env idle k p) = Op k p NewPage # rest)"
    using legacy_browser_opens by blast
  have c3: "browser env p = None \<longrightarrow> newPage (page env k p) = None \<longrightarrow>
      last (snd (legacy_browser env idle k p)) = Op k p ClosePage \<and>
      count_list (snd (legacy_browser env idle k p)) (Op k p ClosePage) = 1"
    using legacy_browser_closes by blast
  have c4: "browser env p \<noteq> None \<or> newPage (page env k p) \<noteq> None \<longrightarrow>
      Op k p ClosePage \<notin> set (snd (legacy_browser env idle k p))"
    using legacy_browser_no_page by blast
  have c5: "page_ops_only k p (snd (nostealth_browser env idle k p))"
    by (rule nostealth_browser_page_ops)
  have c6: "browser env p = None \<longrightarrow> (\<exists>rest. snd (nostealth_browser env idle k p) = Op k p NewPage # rest)"
    using nostealth_browser_opens by blast
  have c7: "browser env p = None \<longrightarrow> newPage (page env k p) = None \<longrightarrow>
    authenticate (page env k p) = None \<longrightarrow> setRequestInterception (page env k p) = None \<longrightarrow>
      Op k p ClosePage \<in> set (snd (nostealth_browser env idle k p))"
    using nostealth_browser_closes by blast
  have c8: "\<exists>rest. snd (playwright_attempt r k p) = Op k p Launch # rest"
    by (rule playwright_launches)
  have c9: "\<forall>v. fst (playwright_attempt r k p) = Inr v \<longrightarrow>
      snd (playwright_attempt r k p) =
        [Op k p Launch, Op k p NewContext, Op k p Route, Op k p NewPage, Op k p (Goto True),
         Op k p Content, Op k p ClosePage, Op k p CloseContext, Op k p CloseBrowser]"
    using playwright_success by blast
  have c10: "\<forall>base n w res w'. sessions_kept (trace w) \<longrightarrow>
      fetch_legacy cfg env u opts base n w = Some (res, w') \<longrightarrow> sessions_kept (trace w')"
    using fetch_legacy_sessions_kept by blast
  from c1 c2 c3 c4 c5 c6 c7 c8 c9 c10 show ?thesis by (intro conjI)
qed

theorem render_attempt_keeps_session_witness:
  "browser env_fail 0 = None \<and> newPage (page env_fail 0 0) = None \<and>
   snd (legacy_browser env_fail (Some True) 0 0) =
     [Op 0 0 NewPage, Op 0 0 Authenticate, Op 0 0 (Goto True), Op 0 0 Content, Op 0 0 ClosePage] \<and>
   page_ops_only 0 0 (snd (legacy_browser env_fail (Some True) 0 0)) \<and>
   last (snd (legacy_browser env_fail (Some True) 0 0)) = Op 0 0 ClosePage \<and>
   count_list (snd (legacy_browser env_fail (Some True) 0 0)) (Op 0 0 ClosePage) = 1"
proof -
  have b: "browser env_fail 0 = None" and n: "newPage (page env_fail 0 0) = None"
    by (simp_all add: env_fail_def ok_page_def)
  have e: "snd (legacy_browser env_fail (Some True) 0 0) =
     [Op 0 0 NewPage, Op 0 0 Authenticate, Op 0 0 (Goto True), Op 0 0 Content, Op 0 0 ClosePage]"
    by (simp add: legacy_browser_def env_fail_def ok_page_def)
  note t = render_attempt_keeps_session [where k = 0 and p = 0 and env = env_fail and idle = "Some True"
      and r = ok_run and cfg = cfg1 and u = u1 and opts = "Browser (Some True)"]
  from t b n have "last (snd (legacy_browser env_fail (Some True) 0 0)) = Op 0 0 ClosePage \<and>
      count_list (snd (legacy_browser env_fail (Some True) 0 0)) (Op 0 0 ClosePage) = 1"
    by blast
  then have l: "last (snd (legacy_browser env_fail (Some True) 0 0)) = Op 0 0 ClosePage"
    and c: "count_list (snd (legacy_browser env_fail (Some True) 0 0)) (Op 0 0 ClosePage) = 1"
    by simp_all
  have o: "page_ops_only 0 0 (snd (legacy_browser env_fail (Some True) 0 0))"
    using t by (rule conjunct1)
  from b n e o l c show ?thesis by (intro conjI)
qed

end
